theory Spec2Isabelle
  imports Complex_Main
begin

section \<open>JavaScript numbers: IEEE 754 binary64\<close>

text \<open>
  Every number of the program is a JavaScript \<^verbatim>\<open>number\<close>, an IEEE 754 binary64 value.
  A finite value is kept as sign, mantissa and binary exponent: \<open>Fin s m e\<close> stands for
  \<open>(-1)^s * m * 2^e\<close>, with \<open>m\<close> odd (or \<open>m = 0\<close> and \<open>e = 0\<close> for the two zeros), so that
  equal values have equal representations. Arithmetic computes the exact result and
  rounds it to the nearest binary64 value, ties to even, as the language prescribes.
\<close>

datatype num = Fin bool int int | Infinity bool | NaN

function bitlen :: "int \<Rightarrow> int" where
  "bitlen n = (if n \<le> 0 then 0 else 1 + bitlen (n div 2))"
  by pat_completeness auto
termination
  by (relation "measure nat") auto

declare bitlen.simps [simp del]

function pow2 :: "int \<Rightarrow> int" where
  "pow2 k = (if k \<le> 0 then 1
             else if even k then (let h = pow2 (k div 2) in h * h)
             else 2 * pow2 (k - 1))"
  by pat_completeness auto
termination
  by (relation "measure nat") auto

declare pow2.simps [simp del]

function strip2 :: "int \<Rightarrow> int \<Rightarrow> int \<times> int" where
  "strip2 m e = (if m \<le> 0 then (0, 0)
                 else if even m then strip2 (m div 2) (e + 1)
                 else (m, e))"
  by pat_completeness auto
termination
  by (relation "measure (\<lambda>(m, e). nat m)") auto

declare strip2.simps [simp del]

text \<open>
  \<open>round_frac s n d e\<close> is the binary64 value nearest to \<open>(-1)^s * (n / d) * 2^e\<close>
  (for \<open>0 \<le> n\<close> and \<open>0 < d\<close>): 53 significant bits, exponents from \<open>-1074\<close>
  (subnormal numbers) to \<open>971\<close>, ties to the even mantissa, overflow to infinity.
\<close>

definition round_frac :: "bool \<Rightarrow> int \<Rightarrow> int \<Rightarrow> int \<Rightarrow> num" where
  "round_frac s n d e = (if n \<le> 0 then Fin s 0 0 else
     let k = bitlen n - bitlen d;
         lg = (if d * pow2 k \<le> n * pow2 (- k) then k else k - 1);
         p = max (lg + e - 52) (- 1074);
         nu = n * pow2 (e - p);
         de = d * pow2 (p - e);
         q = nu div de;
         r = nu mod de;
         m = (if 2 * r < de then q else if de < 2 * r then q + 1
              else if even q then q else q + 1)
     in if m = 0 then Fin s 0 0
        else if 971 < p \<or> (p = 971 \<and> pow2 53 \<le> m) then Infinity s
        else (case strip2 m p of (m', e') \<Rightarrow> Fin s m' e'))"

text \<open>A decimal literal \<open>n * 10^k\<close> of the source, as the compiler reads it.\<close>

definition lit :: "int \<Rightarrow> int \<Rightarrow> num" where
  "lit n k = (if 0 \<le> k then round_frac False (n * 10 ^ nat k) 1 0
              else round_frac False n (10 ^ nat (- k)) 0)"

definition signed :: "bool \<Rightarrow> int \<Rightarrow> int" where
  "signed s m = (if s then - m else m)"

text \<open>The two mantissas of a pair of finite values, brought to the smaller exponent.\<close>

definition aligned :: "bool \<Rightarrow> int \<Rightarrow> int \<Rightarrow> bool \<Rightarrow> int \<Rightarrow> int \<Rightarrow> int \<times> int \<times> int" where
  "aligned s m e t n f =
     (let g = min e f in (signed s (m * pow2 (e - g)), signed t (n * pow2 (f - g)), g))"

fun num_neg :: "num \<Rightarrow> num" where
  "num_neg NaN = NaN"
| "num_neg (Infinity s) = Infinity (\<not> s)"
| "num_neg (Fin s m e) = Fin (\<not> s) m e"

fun num_add :: "num \<Rightarrow> num \<Rightarrow> num" where
  "num_add NaN _ = NaN"
| "num_add _ NaN = NaN"
| "num_add (Infinity s) (Infinity t) = (if s = t then Infinity s else NaN)"
| "num_add (Infinity s) (Fin _ _ _) = Infinity s"
| "num_add (Fin _ _ _) (Infinity t) = Infinity t"
| "num_add (Fin s m e) (Fin t n f) =
     (case aligned s m e t n f of (x, y, g) \<Rightarrow>
        if x + y = 0 then Fin (s \<and> t) 0 0
        else round_frac (x + y < 0) \<bar>x + y\<bar> 1 g)"

fun num_mul :: "num \<Rightarrow> num \<Rightarrow> num" where
  "num_mul NaN _ = NaN"
| "num_mul _ NaN = NaN"
| "num_mul (Infinity s) (Infinity t) = Infinity (s \<noteq> t)"
| "num_mul (Infinity s) (Fin t n _) = (if n = 0 then NaN else Infinity (s \<noteq> t))"
| "num_mul (Fin s m _) (Infinity t) = (if m = 0 then NaN else Infinity (s \<noteq> t))"
| "num_mul (Fin s m e) (Fin t n f) = round_frac (s \<noteq> t) (m * n) 1 (e + f)"

fun num_div :: "num \<Rightarrow> num \<Rightarrow> num" where
  "num_div NaN _ = NaN"
| "num_div _ NaN = NaN"
| "num_div (Infinity s) (Infinity t) = NaN"
| "num_div (Infinity s) (Fin t _ _) = Infinity (s \<noteq> t)"
| "num_div (Fin s _ _) (Infinity t) = Fin (s \<noteq> t) 0 0"
| "num_div (Fin s m e) (Fin t n f) =
     (if n = 0 then (if m = 0 then NaN else Infinity (s \<noteq> t))
      else round_frac (s \<noteq> t) m n (e - f))"

text \<open>The comparisons \<^verbatim>\<open><\<close> and \<^verbatim>\<open>===\<close>: false on NaN, and the two zeros are equal.\<close>

fun num_less :: "num \<Rightarrow> num \<Rightarrow> bool" where
  "num_less NaN _ = False"
| "num_less _ NaN = False"
| "num_less (Infinity s) (Infinity t) = (s \<and> \<not> t)"
| "num_less (Infinity s) (Fin _ _ _) = s"
| "num_less (Fin _ _ _) (Infinity t) = (\<not> t)"
| "num_less (Fin s m e) (Fin t n f) = (case aligned s m e t n f of (x, y, g) \<Rightarrow> x < y)"

fun num_eq :: "num \<Rightarrow> num \<Rightarrow> bool" where
  "num_eq NaN _ = False"
| "num_eq _ NaN = False"
| "num_eq (Infinity s) (Infinity t) = (s = t)"
| "num_eq (Infinity s) (Fin _ _ _) = False"
| "num_eq (Fin _ _ _) (Infinity t) = False"
| "num_eq (Fin s m e) (Fin t n f) = (case aligned s m e t n f of (x, y, g) \<Rightarrow> x = y)"

instantiation num :: "{zero, one, plus, minus, uminus, times, inverse, ord}"
begin

definition zero_num :: num where "zero_num = Fin False 0 0"
definition one_num :: num where "one_num = Fin False 1 0"
definition plus_num :: "num \<Rightarrow> num \<Rightarrow> num" where "plus_num a b = num_add a b"
definition minus_num :: "num \<Rightarrow> num \<Rightarrow> num" where "minus_num a b = num_add a (num_neg b)"
definition uminus_num :: "num \<Rightarrow> num" where "uminus_num a = num_neg a"
definition times_num :: "num \<Rightarrow> num \<Rightarrow> num" where "times_num a b = num_mul a b"
definition divide_num :: "num \<Rightarrow> num \<Rightarrow> num" where "divide_num a b = num_div a b"
definition inverse_num :: "num \<Rightarrow> num" where "inverse_num a = num_div (Fin False 1 0) a"
definition less_num :: "num \<Rightarrow> num \<Rightarrow> bool" where "less_num a b = num_less a b"
definition less_eq_num :: "num \<Rightarrow> num \<Rightarrow> bool" where
  "less_eq_num a b = (num_less a b \<or> num_eq a b)"

instance ..

end

definition isFinite :: "num \<Rightarrow> bool" where
  "isFinite x = (case x of Fin _ _ _ \<Rightarrow> True | _ \<Rightarrow> False)"

section \<open>Complex helpers of the solver\<close>

record cx =
  re :: num
  im :: num

definition cx :: "num \<Rightarrow> num \<Rightarrow> cx" where
  "cx r i = \<lparr>re = r, im = i\<rparr>"

definition cadd :: "cx \<Rightarrow> cx \<Rightarrow> cx" where
  "cadd a b = \<lparr>re = re a + re b, im = im a + im b\<rparr>"

definition csub :: "cx \<Rightarrow> cx \<Rightarrow> cx" where
  "csub a b = \<lparr>re = re a - re b, im = im a - im b\<rparr>"

definition cneg :: "cx \<Rightarrow> cx" where
  "cneg a = \<lparr>re = - re a, im = - im a\<rparr>"

definition cmul :: "cx \<Rightarrow> cx \<Rightarrow> cx" where
  "cmul a b = \<lparr>re = re a * re b - im a * im b, im = re a * im b + im a * re b\<rparr>"

definition cconj :: "cx \<Rightarrow> cx" where
  "cconj a = \<lparr>re = re a, im = - im a\<rparr>"

definition cabs2 :: "cx \<Rightarrow> num" where
  "cabs2 a = re a * re a + im a * im a"

definition cdiv :: "cx \<Rightarrow> cx \<Rightarrow> cx" where
  "cdiv a b = (let d = cabs2 b in
     if num_eq d 0 then \<lparr>re = NaN, im = NaN\<rparr>
     else \<lparr>re = (re a * re b + im a * im b) / d, im = (im a * re b - re a * im b) / d\<rparr>)"

definition cinv :: "cx \<Rightarrow> cx" where
  "cinv a = cdiv (cx 1 0) a"

section \<open>Complex Gaussian elimination (solveLinear)\<close>

datatype error =
  SingularNoPivot
| NoNodes
| MissingGround

type_synonym system = "cx list list \<times> cx list"

definition makeVec :: "nat \<Rightarrow> cx list" where
  "makeVec n = replicate n (cx 0 0)"

definition makeMat :: "nat \<Rightarrow> cx list list" where
  "makeMat n = replicate n (replicate n (cx 0 0))"

text \<open>The pivot search of column \<open>k\<close>: the row and the squared magnitude it keeps.\<close>

definition pick_pivot :: "nat \<Rightarrow> nat \<Rightarrow> cx list list \<Rightarrow> nat \<times> num" where
  "pick_pivot n k A =
     fold (\<lambda>i (piv, best). let v = cabs2 (A ! i ! k) in if best < v then (i, v) else (piv, best))
          [Suc k..<n] (k, cabs2 (A ! k ! k))"

definition swap_rows :: "nat \<Rightarrow> nat \<Rightarrow> system \<Rightarrow> system" where
  "swap_rows k piv S = (case S of (A, z) \<Rightarrow>
     if piv \<noteq> k then (A[k := A ! piv, piv := A ! k], z[k := z ! piv, piv := z ! k]) else (A, z))"

definition elim_row :: "nat \<Rightarrow> nat \<Rightarrow> nat \<Rightarrow> system \<Rightarrow> system" where
  "elim_row n k i S = (case S of (A, z) \<Rightarrow>
     let factor = cdiv (A ! i ! k) (A ! k ! k) in
     if num_eq (cabs2 factor) 0 then (A, z)
     else (fold (\<lambda>j A'. A'[i := (A' ! i)[j := csub (A' ! i ! j) (cmul factor (A' ! k ! j))]])
                [k..<n] A,
           z[i := csub (z ! i) (cmul factor (z ! k))]))"

definition bad_pivot :: "num \<Rightarrow> bool" where
  "bad_pivot best = (num_eq best 0 \<or> \<not> isFinite best)"

definition elim_col :: "nat \<Rightarrow> nat \<Rightarrow> system \<Rightarrow> error + system" where
  "elim_col n k S = (case pick_pivot n k (fst S) of (piv, best) \<Rightarrow>
     if bad_pivot best then Inl SingularNoPivot
     else Inr (fold (elim_row n k) [Suc k..<n] (swap_rows k piv S)))"

fun forward :: "nat \<Rightarrow> nat list \<Rightarrow> system \<Rightarrow> error + system" where
  "forward n [] S = Inr S"
| "forward n (k # ks) S = (case elim_col n k S of Inl e \<Rightarrow> Inl e | Inr S' \<Rightarrow> forward n ks S')"

definition back_subst :: "nat \<Rightarrow> system \<Rightarrow> cx list" where
  "back_subst n S = (case S of (A, z) \<Rightarrow>
     fold (\<lambda>i x. x[i := cdiv (csub (z ! i)
                               (fold (\<lambda>j sum. cadd sum (cmul (A ! i ! j) (x ! j))) [Suc i..<n] (cx 0 0)))
                             (A ! i ! i)])
          (rev [0..<n]) (makeVec n))"

definition solveLinear :: "cx list list \<Rightarrow> cx list \<Rightarrow> error + cx list" where
  "solveLinear Ain zin = (let n = length Ain in
     case forward n [0..<n] (Ain, zin) of
       Inl e \<Rightarrow> Inl e
     | Inr S \<Rightarrow> Inr (back_subst n S))"

section \<open>Strings and numeric literals\<close>

text \<open>
  Strings are lists of 8-bit characters (the Latin-1 range of JavaScript's code units).
  \<open>is_space\<close> is the white space of \<^verbatim>\<open>trim\<close> and of the pattern \<^verbatim>\<open>\s\<close> in that range.
\<close>

definition is_space :: "char \<Rightarrow> bool" where
  "is_space c = (c \<in> set [CHR 0x09, CHR 0x0A, CHR 0x0B, CHR 0x0C, CHR 0x0D, CHR 0x20, CHR 0xA0])"

definition is_digit :: "char \<Rightarrow> bool" where
  "is_digit c = (c \<in> set ''0123456789'')"

definition is_lower :: "char \<Rightarrow> bool" where
  "is_lower c = (c \<in> set ''abcdefghijklmnopqrstuvwxyz'')"

definition is_upper :: "char \<Rightarrow> bool" where
  "is_upper c = (c \<in> set ''ABCDEFGHIJKLMNOPQRSTUVWXYZ'')"

definition is_alpha :: "char \<Rightarrow> bool" where
  "is_alpha c = (is_lower c \<or> is_upper c)"

definition is_sign :: "char \<Rightarrow> bool" where
  "is_sign c = (c = CHR ''+'' \<or> c = CHR ''-'')"

definition digit_val :: "char \<Rightarrow> int" where
  "digit_val c = (case map_of (zip ''0123456789'' [0, 1, 2, 3, 4, 5, 6, 7, 8, 9]) c of
                    Some d \<Rightarrow> d | None \<Rightarrow> 0)"

definition lower_char :: "char \<Rightarrow> char" where
  "lower_char c = (case map_of (zip ''ABCDEFGHIJKLMNOPQRSTUVWXYZ'' ''abcdefghijklmnopqrstuvwxyz'') c of
                     Some d \<Rightarrow> d | None \<Rightarrow> c)"

definition toLowerCase :: "string \<Rightarrow> string" where
  "toLowerCase s = map lower_char s"

definition trim :: "string \<Rightarrow> string" where
  "trim s = rev (dropWhile is_space (rev (dropWhile is_space s)))"

definition digits_val :: "string \<Rightarrow> int" where
  "digits_val ds = foldl (\<lambda>a c. 10 * a + digit_val c) 0 ds"

text \<open>
  The text of a decimal literal as a pattern captures it: sign, integer digits, fraction
  digits, signed exponent. \<open>Number_of\<close> is \<^verbatim>\<open>Number(text)\<close>, the binary64 value nearest to
  the decimal value.
\<close>

record decimal =
  d_neg :: bool
  d_int :: string
  d_frac :: string
  d_exp :: int

definition Number_of :: "decimal \<Rightarrow> num" where
  "Number_of d = (let n = digits_val (d_int d @ d_frac d);
                      k = d_exp d - int (length (d_frac d))
                  in if 0 \<le> k then round_frac (d_neg d) (n * 10 ^ nat k) 1 0
                     else round_frac (d_neg d) n (10 ^ nat (- k)) 0)"

definition take_sign :: "string \<Rightarrow> bool \<times> string" where
  "take_sign s = (case s of
      c # r \<Rightarrow> if c = CHR ''-'' then (True, r) else if c = CHR ''+'' then (False, r) else (False, s)
    | [] \<Rightarrow> (False, s))"

text \<open>The optional exponent \<^verbatim>\<open>(?:e[+-]?\d+)?\<close>: it is taken only when digits follow.\<close>

definition take_exp :: "string \<Rightarrow> int \<times> string" where
  "take_exp s = (case s of
      c # r \<Rightarrow>
        if c = CHR ''e'' then
          (case take_sign r of (neg, r') \<Rightarrow>
             let ds = takeWhile is_digit r' in
             if ds = [] then (0, s)
             else (signed neg (digits_val ds), dropWhile is_digit r'))
        else (0, s)
    | [] \<Rightarrow> (0, s))"

section \<open>parseRealWithSI, looksComplex (solve.ts)\<close>

text \<open>
  The pattern \<^verbatim>\<open>^([+-]?\d+(?:\.\d+)?(?:e[+-]?\d+)?)\s*([a-zA-Z]+)?$\<close>: the number and the
  suffix it captures, or \<open>None\<close> when the string does not match.
\<close>

definition match_real_SI :: "string \<Rightarrow> (decimal \<times> string) option" where
  "match_real_SI s = (case take_sign s of (neg, r1) \<Rightarrow>
     let ds = takeWhile is_digit r1; r2 = dropWhile is_digit r1 in
     if ds = [] then None
     else
       let (fs, r3) = (case r2 of
                         c # r \<Rightarrow> if c = CHR ''.'' \<and> takeWhile is_digit r \<noteq> []
                                  then (takeWhile is_digit r, dropWhile is_digit r) else ([], r2)
                       | [] \<Rightarrow> ([], r2));
           (ex, r4) = take_exp r3;
           r5 = dropWhile is_space r4;
           suf = takeWhile is_alpha r5
       in if dropWhile is_alpha r5 = []
          then Some (\<lparr>d_neg = neg, d_int = ds, d_frac = fs, d_exp = ex\<rparr>, suf)
          else None)"

definition si_mult :: "string \<Rightarrow> num" where
  "si_mult suf =
     (if suf = [] then 1
      else if suf = ''k'' then lit 1 3
      else if suf = ''m'' then lit 1 (- 3)
      else if suf = ''u'' then lit 1 (- 6)
      else if suf = ''n'' then lit 1 (- 9)
      else if suf = ''p'' then lit 1 (- 12)
      else if suf = ''meg'' then lit 1 6
      else if suf = ''g'' then lit 1 9
      else NaN)"

definition parseRealWithSI :: "string \<Rightarrow> num" where
  "parseRealWithSI raw = (let s = trim raw in
     if s = [] then NaN
     else case match_real_SI s of
       None \<Rightarrow> NaN
     | Some (d, sufx) \<Rightarrow>
         let base = Number_of d in
         if \<not> isFinite base then NaN
         else let mult = si_mult (toLowerCase sufx) in
              if \<not> isFinite mult then NaN else base * mult)"

definition looksComplex :: "string \<Rightarrow> bool" where
  "looksComplex s = (CHR ''j'' \<in> set (toLowerCase (trim s)))"

section \<open>parseCx (complex.ts)\<close>

text \<open>
  The pattern of \<^verbatim>\<open>parseReal\<close>:
  \<^verbatim>\<open>^([+-]?(?:\d+(?:\.\d*)?|\.\d+)(?:e[+-]?\d+)?)([kKmMuUnNpP]|M)?$\<close>.
\<close>

definition match_real_cx :: "string \<Rightarrow> (decimal \<times> string) option" where
  "match_real_cx t = (case take_sign t of (neg, r1) \<Rightarrow>
     let ds = takeWhile is_digit r1; r2 = dropWhile is_digit r1;
         body = (if ds \<noteq> [] then
                   (case r2 of
                      c # r \<Rightarrow> if c = CHR ''.''
                               then Some (takeWhile is_digit r, dropWhile is_digit r)
                               else Some ([], r2)
                    | [] \<Rightarrow> Some ([], r2))
                 else
                   (case r2 of
                      c # r \<Rightarrow> if c = CHR ''.'' \<and> takeWhile is_digit r \<noteq> []
                               then Some (takeWhile is_digit r, dropWhile is_digit r)
                               else None
                    | [] \<Rightarrow> None))
     in case body of
          None \<Rightarrow> None
        | Some (fs, r3) \<Rightarrow>
            (case take_exp r3 of (ex, r4) \<Rightarrow>
               let d = \<lparr>d_neg = neg, d_int = ds, d_frac = fs, d_exp = ex\<rparr> in
               (case r4 of
                  [] \<Rightarrow> Some (d, [])
                | c # r \<Rightarrow> if c \<in> set ''kKmMuUnNpP'' \<and> r = [] then Some (d, [c]) else None)))"

definition mulMap :: "string \<Rightarrow> num option" where
  "mulMap = map_of [(''p'', lit 1 (- 12)), (''P'', lit 1 (- 12)),
                    (''n'', lit 1 (- 9)), (''N'', lit 1 (- 9)),
                    (''u'', lit 1 (- 6)), (''U'', lit 1 (- 6)),
                    (''m'', lit 1 (- 3)),
                    (''k'', lit 1 3), (''K'', lit 1 3),
                    (''M'', lit 1 6)]"

definition parseReal :: "string \<Rightarrow> num option" where
  "parseReal t = (if t = [] then None
     else case match_real_cx t of
       None \<Rightarrow> None
     | Some (d, suf) \<Rightarrow>
         let val = Number_of d in
         if \<not> isFinite val then None
         else if suf \<noteq> [] then Some (val * (case mulMap suf of Some f \<Rightarrow> f | None \<Rightarrow> 1))
         else Some val)"

text \<open>
  The pattern \<^verbatim>\<open>^(.+)?([+-])(.+)i$\<close> on a string whose final \<^verbatim>\<open>i\<close> is already taken off:
  the greedy first group leaves the split at the last sign that still has a character
  after it.
\<close>

definition split_last_sign :: "string \<Rightarrow> (string \<times> char \<times> string) option" where
  "split_last_sign t = (case rev t of
      [] \<Rightarrow> None
    | c # r \<Rightarrow>
        (case dropWhile (\<lambda>x. \<not> is_sign x) r of
           [] \<Rightarrow> None
         | sg # bf \<Rightarrow> Some (rev bf, sg, rev (takeWhile (\<lambda>x. \<not> is_sign x) r) @ [c])))"

definition j_to_i :: "string \<Rightarrow> string" where
  "j_to_i s = map (\<lambda>c. if c = CHR ''j'' \<or> c = CHR ''J'' then CHR ''i'' else c) s"

definition parseCx :: "string \<Rightarrow> cx option" where
  "parseCx input = (let s0 = filter (\<lambda>c. \<not> is_space c) (trim input) in
     if s0 = [] then None
     else
       let s = j_to_i s0 in
       if CHR ''i'' \<notin> set s then
         (case parseReal s of None \<Rightarrow> None | Some r \<Rightarrow> Some \<lparr>re = r, im = 0\<rparr>)
       else if s = ''i'' then Some \<lparr>re = 0, im = 1\<rparr>
       else if s = ''+i'' then Some \<lparr>re = 0, im = 1\<rparr>
       else if s = ''-i'' then Some \<lparr>re = 0, im = - 1\<rparr>
       else if last s = CHR ''i'' then
         (case split_last_sign (butlast s) of
            Some (realStr, sg, imagStr) \<Rightarrow>
              (case (if realStr \<noteq> [] then parseReal realStr else Some 0, parseReal imagStr) of
                 (Some reVal, Some imVal0) \<Rightarrow>
                   Some \<lparr>re = reVal, im = (if sg = CHR ''-'' then - imVal0 else imVal0)\<rparr>
               | _ \<Rightarrow> None)
          | None \<Rightarrow>
              (case parseReal (butlast s) of None \<Rightarrow> None | Some imVal \<Rightarrow> Some \<lparr>re = 0, im = imVal\<rparr>))
       else None)"

section \<open>Element values (solve.ts)\<close>

definition parseValueAsCx :: "string \<Rightarrow> cx" where
  "parseValueAsCx raw = (let s = trim raw in
     if s = [] then cx NaN NaN
     else if looksComplex s then (case parseCx s of Some z \<Rightarrow> z | None \<Rightarrow> cx NaN NaN)
     else cx (parseRealWithSI s) 0)"

section \<open>Numeric literals as text\<close>

text \<open>
  A numeric literal by its parts: an optional sign, integer digits, fraction digits
  (none when there is no decimal point), and an optional exponent with its own sign.
\<close>

record literal =
  l_sign :: string
  l_int :: string
  l_frac :: string
  l_exp :: "(string \<times> string) option"

definition is_digits :: "string \<Rightarrow> bool" where
  "is_digits ds = (ds \<noteq> [] \<and> list_all is_digit ds)"

definition is_sign_text :: "string \<Rightarrow> bool" where
  "is_sign_text sg = (sg = [] \<or> sg = ''+'' \<or> sg = ''-'')"

definition literal_ok :: "literal \<Rightarrow> bool" where
  "literal_ok l = (is_sign_text (l_sign l) \<and> is_digits (l_int l) \<and> list_all is_digit (l_frac l) \<and>
     (case l_exp l of None \<Rightarrow> True | Some (sg, es) \<Rightarrow> is_sign_text sg \<and> is_digits es))"

definition literal_text :: "literal \<Rightarrow> string" where
  "literal_text l = l_sign l @ l_int l @ (if l_frac l = [] then [] else CHR ''.'' # l_frac l) @
     (case l_exp l of None \<Rightarrow> [] | Some (sg, es) \<Rightarrow> CHR ''e'' # sg @ es)"

definition literal_decimal :: "literal \<Rightarrow> decimal" where
  "literal_decimal l = \<lparr>d_neg = (l_sign l = ''-''), d_int = l_int l, d_frac = l_frac l,
     d_exp = (case l_exp l of None \<Rightarrow> 0 | Some (sg, es) \<Rightarrow> signed (sg = ''-'') (digits_val es))\<rparr>"

text \<open>The fraction and exponent parts of the text, and the value of the exponent.\<close>

definition exp_text :: "(string \<times> string) option \<Rightarrow> string" where
  "exp_text ex = (case ex of None \<Rightarrow> [] | Some (sg, es) \<Rightarrow> CHR ''e'' # sg @ es)"

definition exp_val :: "(string \<times> string) option \<Rightarrow> int" where
  "exp_val ex = (case ex of None \<Rightarrow> 0 | Some (sg, es) \<Rightarrow> signed (sg = ''-'') (digits_val es))"

definition frac_text :: "string \<Rightarrow> string" where
  "frac_text fs = (if fs = [] then [] else CHR ''.'' # fs)"


section \<open>Element impedance (solve.ts)\<close>

text \<open>\<^verbatim>\<open>Math.max\<close> of two numbers: NaN if either is NaN, and \<open>+0\<close> counts as larger than \<open>-0\<close>.\<close>

definition Math_max :: "num \<Rightarrow> num \<Rightarrow> num" where
  "Math_max a b =
     (if a = NaN \<or> b = NaN then NaN
      else if a < b then b
      else if b < a then a
      else if a = Fin True 0 0 then b
      else a)"

text \<open>\<^verbatim>\<open>Math.PI\<close>, the binary64 value nearest to \<open>\<pi>\<close>: \<open>884279719003555 / 2^48\<close>.\<close>

definition Math_PI :: num where
  "Math_PI = Fin False 884279719003555 (- 48)"

datatype etype = R | C | L | V | I | GND

definition elementImpedance :: "etype \<Rightarrow> string \<Rightarrow> num \<Rightarrow> cx" where
  "elementImpedance ty val freqHz = (let s = trim val; w = lit 2 0 * Math_PI * Math_max 0 freqHz in
     if ty = R then parseValueAsCx s
     else if looksComplex s then (case parseCx s of Some Z \<Rightarrow> Z | None \<Rightarrow> cx NaN NaN)
     else
       let x = parseRealWithSI s in
       if \<not> isFinite x then cx NaN NaN
       else if ty = C then
         (if num_eq w 0 then cx (lit 1 18) 0 else cx 0 (- 1 / (w * x)))
       else
         (if num_eq w 0 then cx (lit 1 (- 12)) 0 else cx 0 (w * x)))"

section \<open>The net and the MNA solver (solve.ts)\<close>

record point =
  px :: num
  py :: num

record node =
  node_id :: string
  node_p :: point

record net_element =
  el_id :: string
  el_type :: etype
  el_name :: string
  el_a :: "string option"
  el_b :: "string option"
  el_value :: "string option"

record CircuitNet =
  nodes :: "node list"
  hasGround :: bool
  elements :: "net_element list"

record SolveResult =
  nodeVoltages :: "string \<rightharpoonup> cx"
  elementVoltages :: "string \<rightharpoonup> cx"
  elementCurrents :: "string \<rightharpoonup> cx"
  elementPowers :: "string \<rightharpoonup> cx"

text \<open>
  A \<^verbatim>\<open>Map\<close> filled by \<^verbatim>\<open>forEach((id, idx) => map.set(id, idx))\<close>: a later entry with the
  same key replaces the earlier one.
\<close>

definition index_map :: "string list \<Rightarrow> (string \<rightharpoonup> nat)" where
  "index_map ids = fold (\<lambda>(idx, ident) m. m(ident \<mapsto> idx)) (zip [0..<length ids] ids) Map.empty"

definition value_or_empty :: "string option \<Rightarrow> string" where
  "value_or_empty v = (case v of Some s \<Rightarrow> s | None \<Rightarrow> [])"

definition idxV :: "(string \<rightharpoonup> nat) \<Rightarrow> string option \<Rightarrow> nat option" where
  "idxV nodeIndex nid = (case nid of
      None \<Rightarrow> None
    | Some s \<Rightarrow> if s = [] \<or> s = ''gnd'' then None else nodeIndex s)"

definition addTo :: "cx list list \<Rightarrow> nat \<Rightarrow> nat \<Rightarrow> cx \<Rightarrow> cx list list" where
  "addTo A i j v = A[i := (A ! i)[j := cadd (A ! i ! j) v]]"

definition addToZ :: "cx list \<Rightarrow> nat \<Rightarrow> cx \<Rightarrow> cx list" where
  "addToZ z i v = z[i := cadd (z ! i) v]"

text \<open>The first stamping loop: admittances of R, C, L into \<open>A\<close>, current sources into \<open>z\<close>.\<close>

definition stamp_passive :: "(string \<rightharpoonup> nat) \<Rightarrow> num \<Rightarrow> net_element \<Rightarrow> system \<Rightarrow> system" where
  "stamp_passive nodeIndex freqHz e S = (case S of (A, z) \<Rightarrow>
     let ia = idxV nodeIndex (el_a e); ib = idxV nodeIndex (el_b e) in
     if el_type e = R \<or> el_type e = C \<or> el_type e = L then
       let Z = elementImpedance (el_type e) (value_or_empty (el_value e)) freqHz;
           Y = cinv Z;
           A1 = (case ia of Some a \<Rightarrow> addTo A a a Y | None \<Rightarrow> A);
           A2 = (case ib of Some b \<Rightarrow> addTo A1 b b Y | None \<Rightarrow> A1);
           A3 = (case (ia, ib) of
                   (Some a, Some b) \<Rightarrow> addTo (addTo A2 a b (cneg Y)) b a (cneg Y)
                 | _ \<Rightarrow> A2)
       in (A3, z)
     else if el_type e = I then
       let Ival = parseValueAsCx (value_or_empty (el_value e));
           z1 = (case ia of Some a \<Rightarrow> addToZ z a (cneg Ival) | None \<Rightarrow> z);
           z2 = (case ib of Some b \<Rightarrow> addToZ z1 b Ival | None \<Rightarrow> z1)
       in (A, z2)
     else (A, z))"

text \<open>The second loop: one extra row and column for every voltage source.\<close>

definition stamp_vsrc :: "(string \<rightharpoonup> nat) \<Rightarrow> (string \<rightharpoonup> nat) \<Rightarrow> nat \<Rightarrow> net_element \<Rightarrow> system \<Rightarrow> system" where
  "stamp_vsrc nodeIndex vsrcIndex N e S = (case S of (A, z) \<Rightarrow>
     let row = N + the (vsrcIndex (el_id e));
         ia = idxV nodeIndex (el_a e); ib = idxV nodeIndex (el_b e);
         Vval = parseValueAsCx (value_or_empty (el_value e));
         A1 = (case ia of Some a \<Rightarrow> addTo (addTo A a row (cx 1 0)) row a (cx 1 0) | None \<Rightarrow> A);
         A2 = (case ib of Some b \<Rightarrow> addTo (addTo A1 b row (cx (- 1) 0)) row b (cx (- 1) 0) | None \<Rightarrow> A1)
     in (A2, addToZ z row Vval))"

definition assemble :: "CircuitNet \<Rightarrow> num \<Rightarrow> system" where
  "assemble net freqHz =
     (let nodeIds = filter (\<lambda>i. i \<noteq> ''gnd'') (map node_id (nodes net));
          nodeIndex = index_map nodeIds;
          vsrc = filter (\<lambda>e. el_type e = V) (elements net);
          vsrcOrder = map el_id vsrc;
          N = length nodeIds;
          M = length vsrcOrder;
          dim = N + M;
          S1 = fold (stamp_passive nodeIndex freqHz) (elements net) (makeMat dim, makeVec dim)
      in fold (stamp_vsrc nodeIndex (index_map vsrcOrder) N) vsrc S1)"

definition Vof :: "(string \<rightharpoonup> cx) \<Rightarrow> string option \<Rightarrow> cx" where
  "Vof nodeVolt nid = (case nid of
      None \<Rightarrow> cx 0 0
    | Some s \<Rightarrow> if s = [] \<or> s = ''gnd'' then cx 0 0
               else (case nodeVolt s of Some v \<Rightarrow> v | None \<Rightarrow> cx 0 0))"

text \<open>The body of the last loop: voltage, current and power of one element.\<close>

definition element_VIS :: "(string \<rightharpoonup> cx) \<Rightarrow> (string \<rightharpoonup> cx) \<Rightarrow> num \<Rightarrow> net_element \<Rightarrow> cx \<times> cx \<times> cx" where
  "element_VIS nodeVolt vsrcCurrents freqHz e =
     (if el_type e = GND then (cx 0 0, cx 0 0, cx 0 0)
      else
        let Vab = csub (Vof nodeVolt (el_a e)) (Vof nodeVolt (el_b e));
            Ival = (if el_type e = V then (case vsrcCurrents (el_id e) of Some i \<Rightarrow> i | None \<Rightarrow> cx 0 0)
                    else if el_type e = I then parseValueAsCx (value_or_empty (el_value e))
                    else cdiv Vab (elementImpedance (el_type e) (value_or_empty (el_value e)) freqHz))
        in (Vab, Ival, cmul Vab (cconj Ival)))"

definition record_element :: "(string \<rightharpoonup> cx) \<Rightarrow> (string \<rightharpoonup> cx) \<Rightarrow> num \<Rightarrow> net_element \<Rightarrow>
    (string \<rightharpoonup> cx) \<times> (string \<rightharpoonup> cx) \<times> (string \<rightharpoonup> cx) \<Rightarrow>
    (string \<rightharpoonup> cx) \<times> (string \<rightharpoonup> cx) \<times> (string \<rightharpoonup> cx)" where
  "record_element nodeVolt vsrcCurrents freqHz e maps = (case maps of (ev, ec, ep) \<Rightarrow>
     (case element_VIS nodeVolt vsrcCurrents freqHz e of (v, i, s) \<Rightarrow>
        (ev(el_id e \<mapsto> v), ec(el_id e \<mapsto> i), ep(el_id e \<mapsto> s))))"

text \<open>
  \<open>solveMNA\<close> without its derivation trace and debug dump, which are formatted text that
  no result depends on. No statement of the body can throw on a net of this type, so the
  \<^verbatim>\<open>catch\<close> branch has no counterpart.
\<close>

definition solveMNA :: "CircuitNet \<Rightarrow> num \<Rightarrow> error + SolveResult" where
  "solveMNA net freqHz =
     (if nodes net = [] then Inl NoNodes
      else if \<not> hasGround net then Inl MissingGround
      else
        let nodeIds = filter (\<lambda>i. i \<noteq> ''gnd'') (map node_id (nodes net));
            vsrcOrder = map el_id (filter (\<lambda>e. el_type e = V) (elements net));
            N = length nodeIds;
            M = length vsrcOrder
        in case assemble net freqHz of (A, z) \<Rightarrow>
           (case solveLinear A z of
              Inl e \<Rightarrow> Inl e
            | Inr x \<Rightarrow>
                let nodeVolt = (fold (\<lambda>i m. m(nodeIds ! i \<mapsto> x ! i)) [0..<N] Map.empty)(''gnd'' \<mapsto> cx 0 0);
                    vsrcCurrents = fold (\<lambda>k m. m(vsrcOrder ! k \<mapsto> x ! (N + k))) [0..<M] Map.empty
                in case fold (record_element nodeVolt vsrcCurrents freqHz) (elements net)
                             (Map.empty, Map.empty, Map.empty) of
                     (ev, ec, ep) \<Rightarrow>
                       Inr \<lparr>nodeVoltages = nodeVolt, elementVoltages = ev,
                            elementCurrents = ec, elementPowers = ep\<rparr>))"

text \<open>
  The representations that stand for a binary64 value: a zero, or an odd mantissa below
  \<open>2^53\<close> with an exponent from \<open>-1074\<close> on and a magnitude below \<open>2^1024\<close>.
\<close>

definition is_f64 :: "num \<Rightarrow> bool" where
  "is_f64 x = (case x of
      Fin s m e \<Rightarrow> (m = 0 \<and> e = 0) \<or> (0 < m \<and> odd m \<and> m < 2 ^ 53 \<and> - 1074 \<le> e \<and> bitlen m + e \<le> 1024)
    | _ \<Rightarrow> True)"

section \<open>Port analysis (Inspector.tsx)\<close>

text \<open>
  \<^verbatim>\<open>abs\<close> is \<^verbatim>\<open>Math.hypot(a.re, a.im)\<close>. \<^verbatim>\<open>Math.hypot\<close> belongs to the runtime and the
  language leaves its result implementation-approximated, so the analysis takes it as a
  parameter \<open>hypot\<close>. \<^verbatim>\<open>x ** 2\<close> is the product \<open>x * x\<close>.
\<close>

definition abs_cx :: "(num \<Rightarrow> num \<Rightarrow> num) \<Rightarrow> cx \<Rightarrow> num" where
  "abs_cx hypot a = hypot (re a) (im a)"

definition square :: "num \<Rightarrow> num" where
  "square x = x * x"

text \<open>
  One runtime's \<^verbatim>\<open>Math.hypot\<close>, for two arguments: the builtin of the V8 engine, which
  scales by the larger magnitude, adds the squares with Kahan's compensation and multiplies
  the square root back. \<open>Math_sqrt\<close> is the correctly rounded square root; \<open>isqrt n\<close> is the
  integer square root, found bit by bit from the top.
\<close>

fun isqrt_steps :: "int list \<Rightarrow> int \<Rightarrow> int \<Rightarrow> int" where
  "isqrt_steps [] n r = r"
| "isqrt_steps (b # bs) n r =
     (let c = r + pow2 b in if c * c \<le> n then isqrt_steps bs n c else isqrt_steps bs n r)"

definition isqrt :: "int \<Rightarrow> int" where
  "isqrt n = isqrt_steps (rev (map int [0..<nat (bitlen n)])) n 0"

fun Math_sqrt :: "num \<Rightarrow> num" where
  "Math_sqrt NaN = NaN"
| "Math_sqrt (Infinity s) = (if s then NaN else Infinity False)"
| "Math_sqrt (Fin s m e) =
     (if m = 0 then Fin s 0 0
      else if s then NaN
      else
        let m2 = (if even e then m else 2 * m);
            e2 = (if even e then e else e - 1);
            k = max 0 ((113 - bitlen m2) div 2);
            N = m2 * pow2 (2 * k);
            r = isqrt N
        in if r * r = N then round_frac False r 1 (e2 div 2 - k)
           else round_frac False (2 * r + 1) 2 (e2 div 2 - k))"

fun Float64Abs :: "num \<Rightarrow> num" where
  "Float64Abs NaN = NaN"
| "Float64Abs (Infinity s) = Infinity False"
| "Float64Abs (Fin s m e) = Fin False m e"

definition hypot_V8 :: "num \<Rightarrow> num \<Rightarrow> num" where
  "hypot_V8 x y =
     (let oneArgIsNaN = (x = NaN \<or> y = NaN);
          ax = (if x = NaN then 0 else Float64Abs x);
          ay = (if y = NaN then 0 else Float64Abs y);
          max1 = (if 0 < ax then ax else 0);
          mx = (if max1 < ay then ay else max1)
      in if mx = Infinity False then Infinity False
         else if oneArgIsNaN then NaN
         else if num_eq mx 0 then 0
         else
           let n1 = ax / mx;
               summand1 = n1 * n1 - 0;
               sum1 = 0 + summand1;
               compensation1 = (sum1 - 0) - summand1;
               n2 = ay / mx;
               summand2 = n2 * n2 - compensation1;
               sum2 = sum1 + summand2
           in Math_sqrt sum2 * mx)"

text \<open>The report of the analysis, by its quantities instead of its formatted lines.\<close>

record port_values =
  Vth :: cx
  Zth :: cx
  Inorton :: cx
  ZLopt :: cx
  Rth :: num
  maxPower :: "(num \<times> num \<times> num) option"

datatype port_report =
  NeedSolveAndPort
| VthFailed error
| ZthFailed error
| Report port_values

definition truthy :: "string option \<Rightarrow> bool" where
  "truthy v = (case v of None \<Rightarrow> False | Some s \<Rightarrow> s \<noteq> [])"

definition baseNet :: "CircuitNet \<Rightarrow> string option \<Rightarrow> CircuitNet" where
  "baseNet builtNet loadElementId =
     builtNet\<lparr>elements := filter (\<lambda>e. if truthy loadElementId then Some (el_id e) \<noteq> loadElementId else True)
                                    (elements builtNet)\<rparr>"

definition killSource :: "net_element \<Rightarrow> net_element" where
  "killSource e = (if el_type e = V then e\<lparr>el_value := Some ''0''\<rparr>
                   else if el_type e = I then e\<lparr>el_value := Some ''0''\<rparr>
                   else e)"

definition offNet :: "CircuitNet \<Rightarrow> CircuitNet" where
  "offNet base = base\<lparr>elements := map killSource (elements base)\<rparr>"

definition testSource :: "string option \<Rightarrow> string option \<Rightarrow> net_element" where
  "testSource measure_a measure_b =
     \<lparr>el_id = ''I_TEST'', el_type = I, el_name = ''I_TEST'', el_a = measure_b, el_b = measure_a,
      el_value = Some ''1''\<rparr>"

definition offNet2 :: "CircuitNet \<Rightarrow> string option \<Rightarrow> string option \<Rightarrow> CircuitNet" where
  "offNet2 base measure_a measure_b =
     (offNet base)\<lparr>elements := elements (offNet base) @ [testSource measure_a measure_b]\<rparr>"

definition voltageAt :: "SolveResult \<Rightarrow> string option \<Rightarrow> cx" where
  "voltageAt res nid = (case nid of
      None \<Rightarrow> cx 0 0
    | Some s \<Rightarrow> (case nodeVoltages res s of Some v \<Rightarrow> v | None \<Rightarrow> cx 0 0))"

definition portAnalysis ::
    "(num \<Rightarrow> num \<Rightarrow> num) \<Rightarrow> CircuitNet option \<Rightarrow> bool \<Rightarrow> num \<Rightarrow> string option \<Rightarrow> string option \<Rightarrow>
     string option \<Rightarrow> port_report" where
  "portAnalysis hypot builtNet solutionOk freqHz measure_a measure_b loadElementId =
     (case builtNet of
        None \<Rightarrow> NeedSolveAndPort
      | Some built \<Rightarrow>
          if \<not> solutionOk \<or> \<not> truthy measure_a \<or> \<not> truthy measure_b then NeedSolveAndPort
          else
            let base = baseNet built loadElementId in
            (case solveMNA base freqHz of
               Inl err \<Rightarrow> VthFailed err
             | Inr resV \<Rightarrow>
                 let vth = csub (voltageAt resV measure_a) (voltageAt resV measure_b) in
                 (case solveMNA (offNet2 base measure_a measure_b) freqHz of
                    Inl err \<Rightarrow> ZthFailed err
                  | Inr resZ \<Rightarrow>
                      let Vtest = csub (voltageAt resZ measure_a) (voltageAt resZ measure_b);
                          zth = Vtest;
                          rth = re zth;
                          Pmax = (if 0 < rth then square (abs_cx hypot vth) / (lit 4 0 * rth) else NaN);
                          PmaxPeak = (if isFinite Pmax then Pmax / lit 2 0 else NaN)
                      in Report \<lparr>Vth = vth, Zth = zth, Inorton = cdiv vth zth, ZLopt = cconj zth,
                                 Rth = rth,
                                 maxPower = (if isFinite Pmax then Some (abs_cx hypot vth, Pmax, PmaxPeak)
                                             else None)\<rparr>)))"

section \<open>Union-find (unionFind.ts)\<close>

record uf =
  parent :: "nat list"
  rank :: "nat list"

definition UnionFind :: "nat \<Rightarrow> uf" where
  "UnionFind n = \<lparr>parent = [0..<n], rank = replicate n 0\<rparr>"

text \<open>
  \<open>find\<close> recurses along the parent links and compresses the path on the way back. The
  recursion is bounded by fuel; \<open>None\<close> stands for a search that does not come back (in the
  source, a stack overflow). The result pairs the returned root with the new parent array.
\<close>

fun find_fuel :: "nat \<Rightarrow> nat list \<Rightarrow> nat \<Rightarrow> (nat \<times> nat list) option" where
  "find_fuel 0 par x = None"
| "find_fuel (Suc k) par x =
     (let p = par ! x in
      if p \<noteq> x then
        (case find_fuel k par p of
           None \<Rightarrow> None
         | Some (r, par') \<Rightarrow> Some (par'[x := r] ! x, par'[x := r]))
      else Some (par ! x, par))"

definition uf_find :: "uf \<Rightarrow> nat \<Rightarrow> (nat \<times> uf) option" where
  "uf_find u x = (case find_fuel (Suc (length (parent u))) (parent u) x of
      None \<Rightarrow> None
    | Some (r, par') \<Rightarrow> Some (r, u\<lparr>parent := par'\<rparr>))"

definition uf_union :: "uf \<Rightarrow> nat \<Rightarrow> nat \<Rightarrow> uf option" where
  "uf_union u a b = (case uf_find u a of
      None \<Rightarrow> None
    | Some (ra, u1) \<Rightarrow>
        (case uf_find u1 b of
           None \<Rightarrow> None
         | Some (rb, u2) \<Rightarrow>
             Some (if ra = rb then u2
                   else if rank u2 ! ra < rank u2 ! rb then u2\<lparr>parent := (parent u2)[ra := rb]\<rparr>
                   else if rank u2 ! rb < rank u2 ! ra then u2\<lparr>parent := (parent u2)[rb := ra]\<rparr>
                   else u2\<lparr>parent := (parent u2)[rb := ra],
                           rank := (rank u2)[ra := Suc (rank u2 ! ra)]\<rparr>)))"

text \<open>
  A \<^verbatim>\<open>Map\<close> as the list of its entries in insertion order: \<open>map_set\<close> replaces the value of
  a key that is present and appends a new key at the end; \<open>map_push\<close> is
  \<^verbatim>\<open>arr = m.get(k) ?? []; arr.push(i); m.set(k, arr)\<close>.
\<close>

fun map_set :: "'k \<Rightarrow> 'v \<Rightarrow> ('k \<times> 'v) list \<Rightarrow> ('k \<times> 'v) list" where
  "map_set k v [] = [(k, v)]"
| "map_set k v (e # m) = (if fst e = k then (k, v) # m else e # map_set k v m)"

definition map_push :: "'k \<Rightarrow> nat \<Rightarrow> ('k \<times> nat list) list \<Rightarrow> ('k \<times> nat list) list" where
  "map_push k i m = map_set k ((case map_of m k of Some arr \<Rightarrow> arr | None \<Rightarrow> []) @ [i]) m"

fun groups_loop :: "nat list \<Rightarrow> uf \<Rightarrow> (nat \<times> nat list) list \<Rightarrow> ((nat \<times> nat list) list \<times> uf) option" where
  "groups_loop [] u m = Some (m, u)"
| "groups_loop (i # rest) u m = (case uf_find u i of
      None \<Rightarrow> None
    | Some (r, u') \<Rightarrow> groups_loop rest u' (map_push r i m))"

definition uf_groups :: "uf \<Rightarrow> ((nat \<times> nat list) list \<times> uf) option" where
  "uf_groups u = groups_loop [0..<length (parent u)] u []"

text \<open>The indices in the lists of a table filled by \<open>map_push\<close>.\<close>

definition members :: "('k \<times> nat list) list \<Rightarrow> nat set" where
  "members m = (\<Union>e\<in>set m. set (snd e))"

text \<open>A loop whose body may fail to return.\<close>

fun ofold :: "('a \<Rightarrow> 's \<Rightarrow> 's option) \<Rightarrow> 'a list \<Rightarrow> 's \<Rightarrow> 's option" where
  "ofold f [] s = Some s"
| "ofold f (x # xs) s = (case f x s of None \<Rightarrow> None | Some s' \<Rightarrow> ofold f xs s')"

text \<open>
  The structure the operations keep: parents are valid indices, and a node that is not a
  root has a smaller rank than its parent. \<open>root_of par x r\<close> says that the parent links
  lead from \<open>x\<close> to the root \<open>r\<close>; two nodes are in the same class when they lead to the same root.
\<close>

definition uf_inv :: "nat \<Rightarrow> uf \<Rightarrow> bool" where
  "uf_inv n u \<longleftrightarrow>
     length (parent u) = n \<and> length (rank u) = n \<and>
     (\<forall>x<n. parent u ! x < n \<and> (parent u ! x \<noteq> x \<longrightarrow> rank u ! x < rank u ! (parent u ! x)))"

inductive root_of :: "nat list \<Rightarrow> nat \<Rightarrow> nat \<Rightarrow> bool" for par :: "nat list" where
  root: "par ! x = x \<Longrightarrow> root_of par x x"
| link: "par ! x \<noteq> x \<Longrightarrow> root_of par (par ! x) r \<Longrightarrow> root_of par x r"

definition same_class :: "uf \<Rightarrow> nat \<Rightarrow> nat \<Rightarrow> bool" where
  "same_class u x y \<longleftrightarrow> (\<exists>r. root_of (parent u) x r \<and> root_of (parent u) y r)"

definition grows :: "uf \<Rightarrow> uf \<Rightarrow> bool" where
  "grows u u' \<longleftrightarrow> (\<forall>y z. same_class u y z \<longrightarrow> same_class u' y z)"

section \<open>The circuit document (types.ts)\<close>

datatype ttype = TR | TC | TL | TV | TI

fun etype_of :: "ttype \<Rightarrow> etype" where
  "etype_of TR = R"
| "etype_of TC = C"
| "etype_of TL = L"
| "etype_of TV = V"
| "etype_of TI = I"

record element2T =
  e2_id :: string
  e2_type :: ttype
  e2_name :: string
  e2_a :: point
  e2_b :: point
  e2_value :: string
  e2_rotation :: nat
  e2_x :: num
  e2_y :: num

record ground =
  gd_id :: string
  gd_name :: string
  gd_p :: point
  gd_x :: num
  gd_y :: num

datatype element = Element2T element2T | Ground ground

record wire =
  w_id :: string
  w_points :: "point list"

record junction =
  j_id :: string
  j_p :: point

record CircuitDoc =
  doc_version :: nat
  doc_grid :: num
  doc_freqHz :: num
  doc_elements :: "element list"
  doc_wires :: "wire list"
  doc_junctions :: "junction list"

fun is_gnd :: "element \<Rightarrow> bool" where
  "is_gnd (Ground g) = True"
| "is_gnd (Element2T e) = False"

section \<open>buildNet (buildNet.ts)\<close>

fun Math_floor :: "num \<Rightarrow> num" where
  "Math_floor NaN = NaN"
| "Math_floor (Infinity s) = Infinity s"
| "Math_floor (Fin s m e) =
     (if 0 \<le> e then Fin s m e
      else
        let d = pow2 (- e);
            q = (if s then (m + d - 1) div d else m div d)
        in if q = 0 then Fin s 0 0 else (case strip2 q 0 of (m', e') \<Rightarrow> Fin s m' e'))"

definition num_of_nat :: "nat \<Rightarrow> num" where
  "num_of_nat n = round_frac False (int n) 1 0"

function string_of_nat :: "nat \<Rightarrow> string" where
  "string_of_nat n = (if n < 10 then [''0123456789'' ! n]
                      else string_of_nat (n div 10) @ [''0123456789'' ! (n mod 10)])"
  by pat_completeness auto
termination
  by (relation "measure id") auto

declare string_of_nat.simps [simp del]

definition dist2 :: "point \<Rightarrow> point \<Rightarrow> num" where
  "dist2 a b = (let dx = px a - px b; dy = py a - py b in dx * dx + dy * dy)"

datatype pkind = Terminal | JunctionPt | WirePt

datatype pterm = TermA | TermB | TermGnd

text \<open>A conductive point. Every point the code collects carries its owner's identifier.\<close>

record pref =
  pr_p :: point
  pr_kind :: pkind
  pr_ownerId :: string
  pr_term :: "pterm option"

fun element_points :: "element \<Rightarrow> pref list" where
  "element_points (Ground g) =
     [\<lparr>pr_p = gd_p g, pr_kind = Terminal, pr_ownerId = gd_id g, pr_term = Some TermGnd\<rparr>]"
| "element_points (Element2T e) =
     [\<lparr>pr_p = e2_a e, pr_kind = Terminal, pr_ownerId = e2_id e, pr_term = Some TermA\<rparr>,
      \<lparr>pr_p = e2_b e, pr_kind = Terminal, pr_ownerId = e2_id e, pr_term = Some TermB\<rparr>]"

definition collect_points :: "CircuitDoc \<Rightarrow> pref list" where
  "collect_points doc =
     concat (map element_points (doc_elements doc)) @
     map (\<lambda>j. \<lparr>pr_p = j_p j, pr_kind = JunctionPt, pr_ownerId = j_id j, pr_term = None\<rparr>)
         (doc_junctions doc) @
     concat (map (\<lambda>w. map (\<lambda>p. \<lparr>pr_p = p, pr_kind = WirePt, pr_ownerId = w_id w, pr_term = None\<rparr>)
                           (w_points w))
                 (doc_wires doc))"

definition tolerance :: "num \<Rightarrow> num" where
  "tolerance g = Math_max (lit 6 0) (Math_floor (g * lit 35 (- 2)))"

definition cell_size :: "num \<Rightarrow> num" where
  "cell_size g = Math_max (lit 10 0) g"

text \<open>
  The key of a hash cell is the text \<^verbatim>\<open>`${cx},${cy}`\<close>. The text of a number determines the
  number up to the sign of zero, so the key is kept as the pair of numbers with a negative
  zero written as zero.
\<close>

definition key_num :: "num \<Rightarrow> num" where
  "key_num x = (if x = Fin True 0 0 then Fin False 0 0 else x)"

definition cell_key :: "num \<Rightarrow> num \<Rightarrow> num \<times> num" where
  "cell_key gx gy = (key_num gx, key_num gy)"

definition cell_of :: "num \<Rightarrow> point \<Rightarrow> num \<times> num" where
  "cell_of cell p = (Math_floor (px p / cell), Math_floor (py p / cell))"

definition make_buckets :: "num \<Rightarrow> pref list \<Rightarrow> ((num \<times> num) \<times> nat list) list" where
  "make_buckets cell pts =
     fold (\<lambda>i m. case cell_of cell (pr_p (pts ! i)) of (gx, gy) \<Rightarrow> map_push (cell_key gx gy) i m)
          [0..<length pts] []"

definition neighbors :: "((num \<times> num) \<times> nat list) list \<Rightarrow> num \<Rightarrow> num \<Rightarrow> nat list" where
  "neighbors buckets gx gy =
     concat (map (\<lambda>dx. concat (map (\<lambda>dy. case map_of buckets (cell_key (gx + dx) (gy + dy)) of
                                              Some arr \<Rightarrow> arr | None \<Rightarrow> [])
                                     [- 1, 0, 1]))
                 [- 1, 0, 1])"

text \<open>
  The scan of point \<open>i\<close> reaches point \<open>j\<close> when the cell of \<open>j\<close> is one of the nine cells
  around the cell of \<open>i\<close>.
\<close>

definition adjacent_cells :: "num \<Rightarrow> point \<Rightarrow> point \<Rightarrow> bool" where
  "adjacent_cells cell p q = (case cell_of cell p of (gx, gy) \<Rightarrow> case cell_of cell q of (hx, hy) \<Rightarrow>
     list_ex (\<lambda>dx. list_ex (\<lambda>dy. cell_key (gx + dx) (gy + dy) = cell_key hx hy) [- 1, 0, 1]) [- 1, 0, 1])"

definition try_union :: "pref list \<Rightarrow> num \<Rightarrow> nat \<Rightarrow> nat \<Rightarrow> uf \<Rightarrow> uf option" where
  "try_union pts tol2 i j u =
     (if j \<le> i then Some u
      else if dist2 (pr_p (pts ! i)) (pr_p (pts ! j)) \<le> tol2 then uf_union u i j
      else Some u)"

definition scan_point :: "pref list \<Rightarrow> num \<Rightarrow> num \<Rightarrow> ((num \<times> num) \<times> nat list) list \<Rightarrow> nat \<Rightarrow> uf \<Rightarrow> uf option" where
  "scan_point pts cell tol2 buckets i u = (case cell_of cell (pr_p (pts ! i)) of (gx, gy) \<Rightarrow>
     ofold (try_union pts tol2 i) (neighbors buckets gx gy) u)"

definition unify_close :: "num \<Rightarrow> pref list \<Rightarrow> uf option" where
  "unify_close g pts =
     (let tol = tolerance g; tol2 = tol * tol; cell = cell_size g in
      ofold (scan_point pts cell tol2 (make_buckets cell pts)) [0..<length pts]
            (UnionFind (length pts)))"

definition wirePointIndices :: "pref list \<Rightarrow> (string \<times> nat list) list" where
  "wirePointIndices pts =
     fold (\<lambda>i m. if pr_kind (pts ! i) = WirePt \<and> pr_ownerId (pts ! i) \<noteq> []
                  then map_push (pr_ownerId (pts ! i)) i m else m)
          [0..<length pts] []"

definition union_wire :: "nat list \<Rightarrow> uf \<Rightarrow> uf option" where
  "union_wire arr u = (case arr of
      [] \<Rightarrow> Some u
    | a0 # rest \<Rightarrow> ofold (\<lambda>k u'. uf_union u' a0 k) rest u)"

text \<open>The union-find once all close points and all points of each wire are united.\<close>

definition cluster :: "CircuitDoc \<Rightarrow> uf option" where
  "cluster doc = (let pts = collect_points doc in
     case unify_close (doc_grid doc) pts of
       None \<Rightarrow> None
     | Some u \<Rightarrow> ofold union_wire (map snd (wirePointIndices pts)) u)"

text \<open>The representative point of a group and whether the group holds a ground terminal.\<close>

definition group_info :: "pref list \<Rightarrow> nat list \<Rightarrow> point \<times> bool" where
  "group_info pts idxs =
     (let sx = fold (\<lambda>idx s. s + px (pr_p (pts ! idx))) idxs 0;
          sy = fold (\<lambda>idx s. s + py (pr_p (pts ! idx))) idxs 0;
          g = list_ex (\<lambda>idx. pr_term (pts ! idx) = Some TermGnd) idxs
      in (\<lparr>px = sx / num_of_nat (length idxs), py = sy / num_of_nat (length idxs)\<rparr>, g))"

text \<open>
  The two passes that name the groups: first \<open>gnd\<close> for every group with a ground
  terminal, then \<open>n1\<close>, \<open>n2\<close>, ... for the others.
\<close>

definition assign_ids :: "(nat \<times> point \<times> bool) list \<Rightarrow> (nat \<times> string) list" where
  "assign_ids info =
     (let m1 = fold (\<lambda>(rt, p, g) m. if g then map_set rt ''gnd'' m else m) info []
      in fst (fold (\<lambda>(rt, p, g) (m, nodeCounter).
                      if map_of m rt \<noteq> None then (m, nodeCounter)
                      else (map_set rt (CHR ''n'' # string_of_nat nodeCounter) m, Suc nodeCounter))
                   info (m1, 1)))"

record term_nodes =
  tn_a :: "string option"
  tn_b :: "string option"
  tn_gnd :: "string option"

definition note_terminal ::
    "pref list \<Rightarrow> (nat \<times> string) list \<Rightarrow> nat \<Rightarrow> (string \<times> term_nodes) list \<times> uf \<Rightarrow>
     ((string \<times> term_nodes) list \<times> uf) option" where
  "note_terminal pts rootToNodeId i st = (case st of (m, u) \<Rightarrow>
     let pr = pts ! i in
     if pr_kind pr \<noteq> Terminal \<or> pr_ownerId pr = [] then Some (m, u)
     else case uf_find u i of
       None \<Rightarrow> None
     | Some (rt, u') \<Rightarrow>
         let nid = map_of rootToNodeId rt;
             prev = (case map_of m (pr_ownerId pr) of
                       Some t \<Rightarrow> t | None \<Rightarrow> \<lparr>tn_a = None, tn_b = None, tn_gnd = None\<rparr>);
             prev1 = (if pr_term pr = Some TermA then prev\<lparr>tn_a := nid\<rparr> else prev);
             prev2 = (if pr_term pr = Some TermB then prev1\<lparr>tn_b := nid\<rparr> else prev1);
             prev3 = (if pr_term pr = Some TermGnd then prev2\<lparr>tn_gnd := nid\<rparr> else prev2)
         in Some (map_set (pr_ownerId pr) prev3 m, u'))"

definition element_nodes ::
    "pref list \<Rightarrow> (nat \<times> string) list \<Rightarrow> uf \<Rightarrow> ((string \<times> term_nodes) list \<times> uf) option" where
  "element_nodes pts rootToNodeId u =
     ofold (note_terminal pts rootToNodeId) [0..<length pts] ([], u)"

definition or_gnd :: "string option \<Rightarrow> string" where
  "or_gnd v = (case v of Some s \<Rightarrow> s | None \<Rightarrow> ''gnd'')"

fun net_element_of :: "(string \<times> term_nodes) list \<Rightarrow> element \<Rightarrow> net_element" where
  "net_element_of elementToNodes (Ground g) =
     (let tn = (case map_of elementToNodes (gd_id g) of
                  Some t \<Rightarrow> t | None \<Rightarrow> \<lparr>tn_a = None, tn_b = None, tn_gnd = None\<rparr>)
      in \<lparr>el_id = gd_id g, el_type = GND, el_name = gd_name g, el_a = Some (or_gnd (tn_gnd tn)),
          el_b = None, el_value = None\<rparr>)"
| "net_element_of elementToNodes (Element2T e) =
     (let tn = (case map_of elementToNodes (e2_id e) of
                  Some t \<Rightarrow> t | None \<Rightarrow> \<lparr>tn_a = None, tn_b = None, tn_gnd = None\<rparr>)
      in \<lparr>el_id = e2_id e, el_type = etype_of (e2_type e), el_name = e2_name e,
          el_a = Some (or_gnd (tn_a tn)), el_b = Some (or_gnd (tn_b tn)),
          el_value = Some (e2_value e)\<rparr>)"

text \<open>
  The last loop, over the entries of \<open>rootToNodeId\<close>: the display position of every node
  name and the list of the nodes that are not ground. Every key of \<open>rootToNodeId\<close> is a
  key of the group table.
\<close>

definition collect_nodes ::
    "(nat \<times> point \<times> bool) list \<Rightarrow> (nat \<times> string) list \<Rightarrow> (string \<times> point) list \<times> node list" where
  "collect_nodes info rootToNodeId =
     fold (\<lambda>(rt, nid) (nodePoints, nodes).
             let p = fst (the (map_of info rt)) in
             (map_set nid p nodePoints,
              if nid \<noteq> ''gnd'' then nodes @ [\<lparr>node_id = nid, node_p = p\<rparr>] else nodes))
          rootToNodeId ([], [])"

record build_ok =
  ok_net :: CircuitNet
  ok_nodePoints :: "(string \<times> point) list"

datatype build_error = NoElements | MissingGND | OnlyGround | FindDoesNotReturn

definition buildNet :: "CircuitDoc \<Rightarrow> build_error + build_ok" where
  "buildNet doc =
     (let pts = collect_points doc in
      if doc_elements doc = [] then Inl NoElements
      else if \<not> list_ex is_gnd (doc_elements doc) then Inl MissingGND
      else case cluster doc of
        None \<Rightarrow> Inl FindDoesNotReturn
      | Some u \<Rightarrow>
          (case uf_groups u of
             None \<Rightarrow> Inl FindDoesNotReturn
           | Some (groups, u1) \<Rightarrow>
               let info = map (\<lambda>(rt, idxs). (rt, group_info pts idxs)) groups;
                   rootToNodeId = assign_ids info
               in case element_nodes pts rootToNodeId u1 of
                    None \<Rightarrow> Inl FindDoesNotReturn
                  | Some (elementToNodes, u2) \<Rightarrow>
                      (case collect_nodes info rootToNodeId of (nodePts, nds) \<Rightarrow>
                         if nds = [] then Inl OnlyGround
                         else Inr \<lparr>ok_net = \<lparr>nodes = nds, hasGround = True,
                                         elements = map (net_element_of elementToNodes) (doc_elements doc)\<rparr>,
                                   ok_nodePoints = nodePts\<rparr>)))"

text \<open>
  Every group of the clustering holds a ground terminal: no node other than ground is left.
\<close>

definition no_free_node :: "CircuitDoc \<Rightarrow> bool" where
  "no_free_node doc = (case cluster doc of
       None \<Rightarrow> False
     | Some u \<Rightarrow> (case uf_groups u of
         None \<Rightarrow> False
       | Some (groups, u1) \<Rightarrow>
           list_all (\<lambda>(rt, idxs). list_ex (\<lambda>idx. pr_term (collect_points doc ! idx) = Some TermGnd) idxs)
                    groups))"




section \<open>Example nets\<close>

definition origin :: point where
  "origin = \<lparr>px = 0, py = 0\<rparr>"

text \<open>The voltage divider: V1 = 5 from n1 to gnd, R1 = 1k from n1 to n2, R2 = 1k from n2 to gnd.\<close>

definition divider :: CircuitNet where
  "divider = \<lparr>nodes = [\<lparr>node_id = ''n1'', node_p = origin\<rparr>, \<lparr>node_id = ''n2'', node_p = origin\<rparr>],
     hasGround = True,
     elements =
       [\<lparr>el_id = ''V1'', el_type = V, el_name = ''V1'', el_a = Some ''n1'', el_b = Some ''gnd'',
         el_value = Some ''5''\<rparr>,
        \<lparr>el_id = ''R1'', el_type = R, el_name = ''R1'', el_a = Some ''n1'', el_b = Some ''n2'',
         el_value = Some ''1k''\<rparr>,
        \<lparr>el_id = ''R2'', el_type = R, el_name = ''R2'', el_a = Some ''n2'', el_b = Some ''gnd'',
         el_value = Some ''1k''\<rparr>]\<rparr>"

text \<open>A capacitor of 1u from n1 to gnd fed by a current source of 1 A from gnd to n1.\<close>

definition cap_net :: CircuitNet where
  "cap_net = \<lparr>nodes = [\<lparr>node_id = ''n1'', node_p = origin\<rparr>],
     hasGround = True,
     elements =
       [\<lparr>el_id = ''C1'', el_type = C, el_name = ''C1'', el_a = Some ''n1'', el_b = Some ''gnd'',
         el_value = Some ''1u''\<rparr>,
        \<lparr>el_id = ''I1'', el_type = I, el_name = ''I1'', el_a = Some ''gnd'', el_b = Some ''n1'',
         el_value = Some ''1''\<rparr>]\<rparr>"

text \<open>A voltage source from n1 to gnd whose value field holds no number.\<close>

definition bad_vsrc_net :: CircuitNet where
  "bad_vsrc_net = \<lparr>nodes = [\<lparr>node_id = ''n1'', node_p = origin\<rparr>],
     hasGround = True,
     elements =
       [\<lparr>el_id = ''V1'', el_type = V, el_name = ''V1'', el_a = Some ''n1'', el_b = Some ''gnd'',
         el_value = Some ''abc''\<rparr>]\<rparr>"

text \<open>A ground marker and a current source that carry the same identifier.\<close>

definition dup_id_net :: CircuitNet where
  "dup_id_net = \<lparr>nodes = [\<lparr>node_id = ''n1'', node_p = origin\<rparr>],
     hasGround = True,
     elements =
       [\<lparr>el_id = ''x'', el_type = GND, el_name = ''GND'', el_a = Some ''gnd'', el_b = None,
         el_value = None\<rparr>,
        \<lparr>el_id = ''R1'', el_type = R, el_name = ''R1'', el_a = Some ''n1'', el_b = Some ''gnd'',
         el_value = Some ''1''\<rparr>,
        \<lparr>el_id = ''x'', el_type = I, el_name = ''I1'', el_a = Some ''gnd'', el_b = Some ''n1'',
         el_value = Some ''1''\<rparr>]\<rparr>"

text \<open>A current source of \<open>2+3j\<close> A from gnd to n1 across a resistor of 1 ohm from n1 to gnd.\<close>

definition port_cx_net :: CircuitNet where
  "port_cx_net = \<lparr>nodes = [\<lparr>node_id = ''n1'', node_p = origin\<rparr>],
     hasGround = True,
     elements =
       [\<lparr>el_id = ''I1'', el_type = I, el_name = ''I1'', el_a = Some ''gnd'', el_b = Some ''n1'',
         el_value = Some ''2+3j''\<rparr>,
        \<lparr>el_id = ''R1'', el_type = R, el_name = ''R1'', el_a = Some ''n1'', el_b = Some ''gnd'',
         el_value = Some ''1''\<rparr>]\<rparr>"

text \<open>Closeness of a computed number to an exact rational value.\<close>

definition valof :: "num \<Rightarrow> rat" where
  "valof x = (case x of
      Fin s m e \<Rightarrow> of_int (signed s m) * (if 0 \<le> e then 2 ^ nat e else 1 / 2 ^ nat (- e))
    | _ \<Rightarrow> 0)"

definition near :: "rat \<Rightarrow> num \<Rightarrow> rat \<Rightarrow> bool" where
  "near tol x c = (isFinite x \<and> \<bar>valof x - c\<bar> \<le> tol)"

definition cx_near :: "rat \<Rightarrow> cx \<Rightarrow> rat \<Rightarrow> bool" where
  "cx_near tol z c = (near tol (re z) c \<and> near tol (im z) 0)"

text \<open>A ground marker with its own identifier beside two elements that share one.\<close>

definition shared_id_net :: CircuitNet where
  "shared_id_net = \<lparr>nodes = [\<lparr>node_id = ''n1'', node_p = origin\<rparr>],
     hasGround = True,
     elements =
       [\<lparr>el_id = ''g1'', el_type = GND, el_name = ''GND'', el_a = Some ''gnd'', el_b = None,
         el_value = None\<rparr>,
        \<lparr>el_id = ''X'', el_type = I, el_name = ''I1'', el_a = Some ''gnd'', el_b = Some ''n1'',
         el_value = Some ''1''\<rparr>,
        \<lparr>el_id = ''X'', el_type = R, el_name = ''R1'', el_a = Some ''n1'', el_b = Some ''gnd'',
         el_value = Some ''2''\<rparr>]\<rparr>"

section \<open>Example documents\<close>

definition pt :: "int \<Rightarrow> int \<Rightarrow> point" where
  "pt x y = \<lparr>px = lit x 0, py = lit y 0\<rparr>"


text \<open>
  Two ground markers, at (0,100) and (200,100), and a resistor from (0,0) to (0,100), on a
  grid of 20.
\<close>

definition two_gnd_doc :: CircuitDoc where
  "two_gnd_doc = \<lparr>doc_version = 1, doc_grid = lit 20 0, doc_freqHz = 0,
     doc_elements =
       [Ground \<lparr>gd_id = ''g1'', gd_name = ''GND'', gd_p = pt 0 100, gd_x = 0, gd_y = lit 120 0\<rparr>,
        Element2T \<lparr>e2_id = ''r1'', e2_type = TR, e2_name = ''R1'', e2_a = pt 0 0, e2_b = pt 0 100,
                   e2_value = ''1k'', e2_rotation = 90, e2_x = 0, e2_y = lit 50 0\<rparr>,
        Ground \<lparr>gd_id = ''g2'', gd_name = ''GND'', gd_p = pt 200 100, gd_x = lit 200 0, gd_y = lit 120 0\<rparr>],
     doc_wires = [], doc_junctions = []\<rparr>"

section \<open>Failure of the linear solve\<close>

lemma forward_append:
  "forward n (xs @ ys) S =
     (case forward n xs S of Inl e \<Rightarrow> Inl e | Inr S' \<Rightarrow> forward n ys S')"
  by (induction xs arbitrary: S) (auto split: sum.splits)

lemma elim_col_fails_iff:
  "elim_col n k S = Inl e \<longleftrightarrow> e = SingularNoPivot \<and> bad_pivot (snd (pick_pivot n k (fst S)))"
  by (auto simp: elim_col_def split: prod.splits if_splits)

lemma forward_upt_fails_iff:
  "forward n [0..<m] S0 = Inl e \<longleftrightarrow>
     e = SingularNoPivot \<and>
     (\<exists>k<m. \<exists>S. forward n [0..<k] S0 = Inr S \<and> bad_pivot (snd (pick_pivot n k (fst S))))"
proof (induction m arbitrary: e)
  case 0
  show ?case by simp
next
  case (Suc m)
  show ?case
  proof (cases "forward n [0..<m] S0")
    case (Inl e')
    with Suc.IH [of e'] have e': "e' = SingularNoPivot"
      and ex: "\<exists>k<m. \<exists>S. forward n [0..<k] S0 = Inr S \<and> bad_pivot (snd (pick_pivot n k (fst S)))"
      by auto
    from ex have "\<exists>k<Suc m. \<exists>S. forward n [0..<k] S0 = Inr S \<and> bad_pivot (snd (pick_pivot n k (fst S)))"
      using less_Suc_eq by blast
    with Inl e' show ?thesis
      by (auto simp: forward_append)
  next
    case (Inr S')
    have none: "\<not> (\<exists>k<m. \<exists>S. forward n [0..<k] S0 = Inr S \<and> bad_pivot (snd (pick_pivot n k (fst S))))"
      using Suc.IH [of SingularNoPivot] Inr by auto
    have step: "forward n [0..<Suc m] S0 = Inl e \<longleftrightarrow> elim_col n m S' = Inl e"
      using Inr by (auto simp: forward_append split: sum.splits)
    show ?thesis
    proof
      assume "forward n [0..<Suc m] S0 = Inl e"
      with step have "e = SingularNoPivot" and "bad_pivot (snd (pick_pivot n m (fst S')))"
        by (auto simp: elim_col_fails_iff)
      with Inr show "e = SingularNoPivot \<and>
          (\<exists>k<Suc m. \<exists>S. forward n [0..<k] S0 = Inr S \<and> bad_pivot (snd (pick_pivot n k (fst S))))"
        by blast
    next
      assume r: "e = SingularNoPivot \<and>
          (\<exists>k<Suc m. \<exists>S. forward n [0..<k] S0 = Inr S \<and> bad_pivot (snd (pick_pivot n k (fst S))))"
      then obtain k S where k: "k < Suc m" and S: "forward n [0..<k] S0 = Inr S"
        and bad: "bad_pivot (snd (pick_pivot n k (fst S)))"
        by blast
      from none k S bad have "k = m"
        using less_Suc_eq by blast
      with S Inr have "S = S'" by simp
      with bad \<open>k = m\<close> r have "elim_col n m S' = Inl e"
        by (simp add: elim_col_fails_iff)
      with step show "forward n [0..<Suc m] S0 = Inl e" by simp
    qed
  qed
qed

text \<open>
  C1 (as the code has it). The linear solve of \<open>solveMNA\<close> fails, and then always with the
  singular-matrix error, exactly when at some column \<open>k\<close>, reached after the columns before
  it were eliminated, the squared magnitude kept by the pivot search is exactly zero or is
  not finite. There is no threshold \<open>1e-14\<close>: any pivot whose squared magnitude is a
  non-zero finite number is accepted.
\<close>

theorem solveLinear_fails_iff_pivot_zero_or_nonfinite:
  "solveLinear A z = Inl e \<longleftrightarrow>
     e = SingularNoPivot \<and>
     (\<exists>k<length A. \<exists>S. forward (length A) [0..<k] (A, z) = Inr S \<and>
        (let best = snd (pick_pivot (length A) k (fst S)) in num_eq best 0 \<or> \<not> isFinite best))"
proof -
  have "solveLinear A z = Inl e \<longleftrightarrow> forward (length A) [0..<length A] (A, z) = Inl e"
    by (auto simp: solveLinear_def Let_def split: sum.splits)
  then show ?thesis
    by (simp add: forward_upt_fails_iff bad_pivot_def Let_def)
qed

theorem solveLinear_fails_iff_pivot_zero_or_nonfinite_witness:
  "solveLinear [[cx 0 0]] [cx 1 0] = Inl SingularNoPivot \<and>
   (\<exists>k<length [[cx 0 0]]. \<exists>S. forward (length [[cx 0 0]]) [0..<k] ([[cx 0 0]], [cx 1 0]) = Inr S \<and>
      (let best = snd (pick_pivot (length [[cx 0 0]]) k (fst S)) in num_eq best 0 \<or> \<not> isFinite best))"
proof -
  have "solveLinear [[cx 0 0]] [cx 1 0] = Inl SingularNoPivot"
    by code_simp
  then show ?thesis
    using solveLinear_fails_iff_pivot_zero_or_nonfinite [of "[[cx 0 0]]" "[cx 1 0]" SingularNoPivot]
    by blast
qed

text \<open>
  The claim as stated fails on the capacitor at frequency 0: the assembled system is the
  single equation \<open>Y * V(n1) = 1\<close> with \<open>Y = 5192296858534827 * 2^-112\<close> (about \<open>1e-18\<close>),
  the pivot is positive and below \<open>1e-14\<close>, and the solve returns a solution.
\<close>

theorem solveLinear_accepts_pivot_below_1e14:
  "assemble cap_net 0 = ([[cx (Fin False 5192296858534827 (- 112)) 0]], [cx 1 0]) \<and>
   0 < Fin False 5192296858534827 (- 112) \<and>
   Fin False 5192296858534827 (- 112) < lit 1 (- 14) \<and>
   solveLinear [[cx (Fin False 5192296858534827 (- 112)) 0]] [cx 1 0]
     = Inr [cx (Fin False 7812500000000001 7) 0]"
  by code_simp

section \<open>The solver on concrete nets\<close>

lemma divider_assemble:
  "assemble divider 0 =
     ([[cx (Fin False 1152921504606847 (- 60)) 0, cx (Fin True 1152921504606847 (- 60)) 0, cx 1 0],
       [cx (Fin True 1152921504606847 (- 60)) 0, cx (Fin False 1152921504606847 (- 59)) 0, cx 0 0],
       [cx 1 0, cx 0 0, cx 0 0]],
      [cx 0 0, cx 0 0, cx (Fin False 5 0) 0])"
  by code_simp

lemma divider_linear:
  "solveLinear
     [[cx (Fin False 1152921504606847 (- 60)) 0, cx (Fin True 1152921504606847 (- 60)) 0, cx 1 0],
      [cx (Fin True 1152921504606847 (- 60)) 0, cx (Fin False 1152921504606847 (- 59)) 0, cx 0 0],
      [cx 1 0, cx 0 0, cx 0 0]]
     [cx 0 0, cx 0 0, cx (Fin False 5 0) 0]
   = Inr [cx (Fin False 5 0) 0, cx (Fin False 5629499534213121 (- 51)) 0,
          cx (Fin True 5764607523034235 (- 61)) 0]"
  by code_simp

lemma divider_solution:
  "(case solveMNA divider 0 of
      Inl _ \<Rightarrow> False
    | Inr r \<Rightarrow>
        nodeVoltages r ''n2'' = Some (cx (Fin False 5629499534213121 (- 51)) 0) \<and>
        elementCurrents r ''R1'' = Some (cx (Fin False 2882303761517117 (- 60)) 0) \<and>
        elementCurrents r ''R2'' = Some (cx (Fin False 1441151880758559 (- 59)) 0) \<and>
        elementCurrents r ''V1'' = Some (cx (Fin True 5764607523034235 (- 61)) 0))"
  apply (simp only: solveMNA_def divider_assemble divider_linear Let_def prod.case sum.case)
  apply code_simp
  done

text \<open>
  C3. On the voltage divider at frequency 0 the solver succeeds with \<open>V(n2) = 2.5\<close>,
  \<open>I(R1) = I(R2) = 0.0025\<close> and \<open>I(V1) = -0.0025\<close>, each near \<open>1e-9\<close> (the binary64
  results are \<open>2.5 + 2^-51\<close> for the voltage and near one unit in the last place of
  \<open>0.0025\<close> for the currents), with zero imaginary parts.
\<close>

theorem solveMNA_voltage_divider:
  "\<exists>r v i1 i2 iv.
     solveMNA divider 0 = Inr r \<and>
     nodeVoltages r ''n2'' = Some v \<and> cx_near (1 / 10 ^ 9) v (5 / 2) \<and>
     elementCurrents r ''R1'' = Some i1 \<and> cx_near (1 / 10 ^ 9) i1 (1 / 400) \<and>
     elementCurrents r ''R2'' = Some i2 \<and> cx_near (1 / 10 ^ 9) i2 (1 / 400) \<and>
     elementCurrents r ''V1'' = Some iv \<and> cx_near (1 / 10 ^ 9) iv (- (1 / 400))"
proof (cases "solveMNA divider 0")
  case (Inl e)
  with divider_solution show ?thesis by simp
next
  case (Inr r)
  with divider_solution have
    v: "nodeVoltages r ''n2'' = Some (cx (Fin False 5629499534213121 (- 51)) 0)" and
    i1: "elementCurrents r ''R1'' = Some (cx (Fin False 2882303761517117 (- 60)) 0)" and
    i2: "elementCurrents r ''R2'' = Some (cx (Fin False 1441151880758559 (- 59)) 0)" and
    iv: "elementCurrents r ''V1'' = Some (cx (Fin True 5764607523034235 (- 61)) 0)"
    by simp_all
  have "cx_near (1 / 10 ^ 9) (cx (Fin False 5629499534213121 (- 51)) 0) (5 / 2)"
    by (simp add: cx_near_def near_def valof_def cx_def isFinite_def signed_def zero_num_def)
  moreover have "cx_near (1 / 10 ^ 9) (cx (Fin False 2882303761517117 (- 60)) 0) (1 / 400)"
    by (simp add: cx_near_def near_def valof_def cx_def isFinite_def signed_def zero_num_def)
  moreover have "cx_near (1 / 10 ^ 9) (cx (Fin False 1441151880758559 (- 59)) 0) (1 / 400)"
    by (simp add: cx_near_def near_def valof_def cx_def isFinite_def signed_def zero_num_def)
  moreover have "cx_near (1 / 10 ^ 9) (cx (Fin True 5764607523034235 (- 61)) 0) (- (1 / 400))"
    by (simp add: cx_near_def near_def valof_def cx_def isFinite_def signed_def zero_num_def)
  ultimately show ?thesis
    using Inr v i1 i2 iv by blast
qed

lemma bad_vsrc_assemble:
  "assemble bad_vsrc_net 0 = ([[cx 0 0, cx 1 0], [cx 1 0, cx 0 0]], [cx 0 0, cx NaN 0])"
  by code_simp

lemma bad_vsrc_linear:
  "solveLinear [[cx 0 0, cx 1 0], [cx 1 0, cx 0 0]] [cx 0 0, cx NaN 0] = Inr [cx NaN NaN, cx 0 0]"
  by code_simp

text \<open>
  C2 (the code at the failing input). A voltage source whose value is not a number puts
  NaN on the right-hand side; elimination succeeds, back-substitution yields the unknown
  \<open>V(n1) = NaN + NaN i\<close>, and \<open>solveMNA\<close> returns it as a successful result.
\<close>

theorem solveMNA_returns_nonfinite_unknown:
  "(case solveMNA bad_vsrc_net 0 of Inl _ \<Rightarrow> None | Inr r \<Rightarrow> nodeVoltages r ''n1'')
     = Some (cx NaN NaN)"
  apply (simp only: solveMNA_def bad_vsrc_assemble bad_vsrc_linear Let_def prod.case sum.case)
  apply code_simp
  done

lemma dup_id_assemble:
  "assemble dup_id_net 0 = ([[cx 1 0]], [cx 1 0])"
  by code_simp

lemma dup_id_linear:
  "solveLinear [[cx 1 0]] [cx 1 0] = Inr [cx 1 0]"
  by code_simp

text \<open>
  The claim C10 as stated fails when a ground marker shares its identifier with a later
  element: the entry under that identifier is the later element's.
\<close>

theorem ground_entry_overwritten_by_same_id:
  "el_type (elements dup_id_net ! 0) = GND \<and> el_id (elements dup_id_net ! 0) = ''x'' \<and>
   (case solveMNA dup_id_net 0 of Inl _ \<Rightarrow> None | Inr r \<Rightarrow> elementCurrents r ''x'') = Some (cx 1 0)"
  apply (simp only: solveMNA_def dup_id_assemble dup_id_linear Let_def prod.case sum.case)
  apply code_simp
  done

section \<open>Entries of the element maps\<close>

lemma find_distinct_key:
  "distinct (map f xs) \<Longrightarrow> x \<in> set xs \<Longrightarrow> find (\<lambda>y. f y = f x) xs = Some x"
  by (induction xs) (auto simp: image_iff)

lemma find_app:
  "find P (xs @ ys) = (case find P xs of None \<Rightarrow> find P ys | Some x \<Rightarrow> Some x)"
  by (induction xs) auto

lemma fold_record_element_lookup:
  "fold (record_element nv vc f) es (ev, ec, ep) = (ev', ec', ep') \<Longrightarrow>
     ev' i = (case find (\<lambda>e. el_id e = i) (rev es) of
                None \<Rightarrow> ev i | Some e \<Rightarrow> Some (fst (element_VIS nv vc f e))) \<and>
     ec' i = (case find (\<lambda>e. el_id e = i) (rev es) of
                None \<Rightarrow> ec i | Some e \<Rightarrow> Some (fst (snd (element_VIS nv vc f e)))) \<and>
     ep' i = (case find (\<lambda>e. el_id e = i) (rev es) of
                None \<Rightarrow> ep i | Some e \<Rightarrow> Some (snd (snd (element_VIS nv vc f e))))"
proof (induction es arbitrary: ev ec ep)
  case Nil
  then show ?case by simp
next
  case (Cons e es)
  obtain v c s where vis: "element_VIS nv vc f e = (v, c, s)"
    by (cases "element_VIS nv vc f e") auto
  have step: "record_element nv vc f e (ev, ec, ep)
      = (ev(el_id e \<mapsto> v), ec(el_id e \<mapsto> c), ep(el_id e \<mapsto> s))"
    by (simp add: record_element_def vis)
  from Cons.prems have
    "fold (record_element nv vc f) es (ev(el_id e \<mapsto> v), ec(el_id e \<mapsto> c), ep(el_id e \<mapsto> s))
       = (ev', ec', ep')"
    by (simp add: step)
  from Cons.IH [OF this] show ?case
    by (auto simp: find_app vis split: option.splits)
qed

lemma solveMNA_maps_are_fold:
  assumes "solveMNA net freqHz = Inr r"
  shows "\<exists>nv vc. fold (record_element nv vc freqHz) (elements net) (Map.empty, Map.empty, Map.empty)
           = (elementVoltages r, elementCurrents r, elementPowers r)"
  using assms
  apply (auto simp: solveMNA_def Let_def split: if_splits prod.splits sum.splits)
  apply (rule exI, rule exI, assumption)
  done

lemma find_member: "find P xs = Some x \<Longrightarrow> x \<in> set xs \<and> P x"
  by (induction xs) (auto split: if_splits)

text \<open>
  C10 (as the code has it). When \<open>solveMNA\<close> succeeds, each of the three element maps has
  an entry under the identifier of every element of the net; and the three entries of a GND
  element are \<open>0+0i\<close> whenever no element of another type carries the same identifier.
\<close>

theorem solveMNA_element_entries:
  assumes "solveMNA net freqHz = Inr r" and "e \<in> set (elements net)"
  shows "elementVoltages r (el_id e) \<noteq> None \<and>
         elementCurrents r (el_id e) \<noteq> None \<and>
         elementPowers r (el_id e) \<noteq> None \<and>
         (el_type e = GND \<and> (\<forall>e'\<in>set (elements net). el_id e' = el_id e \<longrightarrow> el_type e' = GND) \<longrightarrow>
            elementVoltages r (el_id e) = Some (cx 0 0) \<and>
            elementCurrents r (el_id e) = Some (cx 0 0) \<and>
            elementPowers r (el_id e) = Some (cx 0 0))"
proof -
  from solveMNA_maps_are_fold [OF assms(1)] obtain nv vc where
    fold_eq: "fold (record_element nv vc freqHz) (elements net) (Map.empty, Map.empty, Map.empty)
           = (elementVoltages r, elementCurrents r, elementPowers r)"
    by blast
  note look = fold_record_element_lookup [OF fold_eq, of "el_id e"]
  from assms(2) have "e \<in> set (rev (elements net))" by simp
  then have "find (\<lambda>e'. el_id e' = el_id e) (rev (elements net)) \<noteq> None"
    by (auto simp: find_None_iff)
  then obtain e' where f: "find (\<lambda>e'. el_id e' = el_id e) (rev (elements net)) = Some e'"
    by blast
  from find_member [OF this] have e': "e' \<in> set (elements net)" "el_id e' = el_id e"
    by simp_all
  have exist: "elementVoltages r (el_id e) \<noteq> None \<and>
         elementCurrents r (el_id e) \<noteq> None \<and>
         elementPowers r (el_id e) \<noteq> None"
    using look f by simp
  have zero: "elementVoltages r (el_id e) = Some (cx 0 0) \<and>
            elementCurrents r (el_id e) = Some (cx 0 0) \<and>
            elementPowers r (el_id e) = Some (cx 0 0)"
    if "\<forall>e'\<in>set (elements net). el_id e' = el_id e \<longrightarrow> el_type e' = GND"
  proof -
    from that e' have "el_type e' = GND" by blast
    with look f show ?thesis
      by (simp add: element_VIS_def)
  qed
  from exist zero show ?thesis by blast
qed

lemma shared_id_net_linear:
  "solveLinear [[cx (Fin False 1 (- 1)) 0]] [cx 1 0] = Inr [cx (Fin False 1 1) 0]"
  by code_simp

lemma shared_id_net_assemble:
  "assemble shared_id_net 0 = ([[cx (Fin False 1 (- 1)) 0]], [cx 1 0])"
  by code_simp

lemma shared_id_net_solves:
  "(case solveMNA shared_id_net 0 of Inl _ \<Rightarrow> False | Inr r \<Rightarrow> True)"
  by (simp only: solveMNA_def shared_id_net_assemble shared_id_net_linear Let_def prod.case sum.case)
     code_simp

theorem solveMNA_element_entries_witness:
  "\<not> distinct (map el_id (elements shared_id_net)) \<and>
   map el_type (filter (\<lambda>e'. el_id e' = ''g1'') (elements shared_id_net)) = [GND] \<and>
   (\<exists>r. solveMNA shared_id_net 0 = Inr r \<and>
      elementVoltages r ''g1'' = Some (cx 0 0) \<and>
      elementCurrents r ''g1'' = Some (cx 0 0) \<and>
      elementPowers r ''g1'' = Some (cx 0 0) \<and>
      elementCurrents r ''X'' \<noteq> None)"
proof -
  obtain r where r: "solveMNA shared_id_net 0 = Inr r"
    using shared_id_net_solves by (cases "solveMNA shared_id_net 0") auto
  have d: "\<not> distinct (map el_id (elements shared_id_net))"
    by (simp add: shared_id_net_def)
  have own: "\<forall>e'\<in>set (elements shared_id_net). el_id e' = ''g1'' \<longrightarrow> el_type e' = GND"
    by (simp add: shared_id_net_def)
  have g: "elements shared_id_net ! 0 \<in> set (elements shared_id_net)"
    "el_type (elements shared_id_net ! 0) = GND" "el_id (elements shared_id_net ! 0) = ''g1''"
    by (simp_all add: shared_id_net_def)
  have x: "elements shared_id_net ! 2 \<in> set (elements shared_id_net)"
    "el_id (elements shared_id_net ! 2) = ''X''"
    by (simp_all add: shared_id_net_def)
  have only: "map el_type (filter (\<lambda>e'. el_id e' = ''g1'') (elements shared_id_net)) = [GND]"
    by (simp add: shared_id_net_def)
  from solveMNA_element_entries [OF r g(1)] solveMNA_element_entries [OF r x(1)] d own only g x r
  show ?thesis by auto
qed

section \<open>Port analysis\<close>

lemma num_le_zero_not_pos: "(x::num) \<le> 0 \<Longrightarrow> \<not> 0 < x"
  by (cases x)
     (auto simp: less_eq_num_def less_num_def zero_num_def aligned_def Let_def min.commute)

text \<open>
  C5. Whenever the port analysis produces its report, the base net is the built net without
  the load element, and the second solve ran on the source-killed net: the nodes and the
  ground flag of the built net, every V and every I element of the base net kept as it is
  but for its value, which is \<open>0\<close>, every other element unchanged, and one appended current
  source \<open>I_TEST\<close> of value \<open>1\<close> whose terminal \<open>a\<close> is port node B and whose terminal \<open>b\<close> is
  port node A. \<open>Vth\<close> and \<open>Zth\<close> are \<open>V(A) - V(B)\<close> of the first and of the second solve. A
  maximum power is reported only if \<open>Re(Zth) > 0\<close>, and it is then
  \<open>|Vth|^2 / (4 * Re(Zth))\<close> with \<open>|Vth|\<close> as the runtime's \<^verbatim>\<open>Math.hypot\<close> gives it; when
  \<open>Re(Zth) \<le> 0\<close> no maximum power is reported (the report says the formula does not apply).
\<close>

theorem portAnalysis_source_killed_net_and_max_power:
  assumes "portAnalysis hypot builtNet solutionOk freqHz measure_a measure_b loadElementId = Report rep"
  shows "\<exists>built resV resZ.
     builtNet = Some built \<and>
     solveMNA (baseNet built loadElementId) freqHz = Inr resV \<and>
     solveMNA (offNet2 (baseNet built loadElementId) measure_a measure_b) freqHz = Inr resZ \<and>
     nodes (baseNet built loadElementId) = nodes built \<and>
     hasGround (baseNet built loadElementId) = hasGround built \<and>
     elements (baseNet built loadElementId)
       = (if truthy loadElementId then filter (\<lambda>e. Some (el_id e) \<noteq> loadElementId) (elements built)
          else elements built) \<and>
     nodes (offNet2 (baseNet built loadElementId) measure_a measure_b) = nodes built \<and>
     hasGround (offNet2 (baseNet built loadElementId) measure_a measure_b) = hasGround built \<and>
     elements (offNet2 (baseNet built loadElementId) measure_a measure_b)
       = map (\<lambda>e. if el_type e = V \<or> el_type e = I then e\<lparr>el_value := Some ''0''\<rparr> else e)
             (elements (baseNet built loadElementId)) @
         [\<lparr>el_id = ''I_TEST'', el_type = I, el_name = ''I_TEST'', el_a = measure_b, el_b = measure_a,
           el_value = Some ''1''\<rparr>] \<and>
     Vth rep = csub (voltageAt resV measure_a) (voltageAt resV measure_b) \<and>
     Zth rep = csub (voltageAt resZ measure_a) (voltageAt resZ measure_b) \<and>
     (\<forall>mag p peak. maxPower rep = Some (mag, p, peak) \<longrightarrow>
        0 < re (Zth rep) \<and>
        p = (hypot (re (Vth rep)) (im (Vth rep)) * hypot (re (Vth rep)) (im (Vth rep)))
              / (lit 4 0 * re (Zth rep))) \<and>
     (re (Zth rep) \<le> 0 \<longrightarrow> maxPower rep = None)"
proof -
  from assms obtain built where built: "builtNet = Some built"
    by (cases builtNet) (auto simp: portAnalysis_def)
  from assms built obtain resV where resV: "solveMNA (baseNet built loadElementId) freqHz = Inr resV"
    by (cases "solveMNA (baseNet built loadElementId) freqHz")
       (auto simp: portAnalysis_def Let_def split: if_splits)
  from assms built resV obtain resZ where
    resZ: "solveMNA (offNet2 (baseNet built loadElementId) measure_a measure_b) freqHz = Inr resZ"
    by (cases "solveMNA (offNet2 (baseNet built loadElementId) measure_a measure_b) freqHz")
       (auto simp: portAnalysis_def Let_def split: if_splits)
  have base: "nodes (baseNet built loadElementId) = nodes built"
    "hasGround (baseNet built loadElementId) = hasGround built"
    "elements (baseNet built loadElementId)
       = (if truthy loadElementId then filter (\<lambda>e. Some (el_id e) \<noteq> loadElementId) (elements built)
          else elements built)"
    by (simp_all add: baseNet_def)
  have kill: "killSource = (\<lambda>e. if el_type e = V \<or> el_type e = I then e\<lparr>el_value := Some ''0''\<rparr> else e)"
    by (auto simp: killSource_def fun_eq_iff)
  have off: "nodes (offNet2 (baseNet built loadElementId) measure_a measure_b) = nodes built"
    "hasGround (offNet2 (baseNet built loadElementId) measure_a measure_b) = hasGround built"
    by (simp_all add: offNet2_def offNet_def baseNet_def)
  have els: "elements (offNet2 (baseNet built loadElementId) measure_a measure_b)
       = map (\<lambda>e. if el_type e = V \<or> el_type e = I then e\<lparr>el_value := Some ''0''\<rparr> else e)
             (elements (baseNet built loadElementId)) @
         [\<lparr>el_id = ''I_TEST'', el_type = I, el_name = ''I_TEST'', el_a = measure_b, el_b = measure_a,
           el_value = Some ''1''\<rparr>]"
    unfolding kill [symmetric] by (simp add: offNet2_def offNet_def testSource_def)
  from assms built resV resZ have rep:
    "rep = \<lparr>Vth = csub (voltageAt resV measure_a) (voltageAt resV measure_b),
            Zth = csub (voltageAt resZ measure_a) (voltageAt resZ measure_b),
            Inorton = cdiv (csub (voltageAt resV measure_a) (voltageAt resV measure_b))
                           (csub (voltageAt resZ measure_a) (voltageAt resZ measure_b)),
            ZLopt = cconj (csub (voltageAt resZ measure_a) (voltageAt resZ measure_b)),
            Rth = re (csub (voltageAt resZ measure_a) (voltageAt resZ measure_b)),
            maxPower =
              (let rth = re (csub (voltageAt resZ measure_a) (voltageAt resZ measure_b));
                   vth = csub (voltageAt resV measure_a) (voltageAt resV measure_b);
                   Pmax = (if 0 < rth then square (abs_cx hypot vth) / (lit 4 0 * rth) else NaN)
               in if isFinite Pmax
                  then Some (abs_cx hypot vth, Pmax, if isFinite Pmax then Pmax / lit 2 0 else NaN)
                  else None)\<rparr>"
    by (auto simp: portAnalysis_def Let_def split: if_splits)
  have vth: "Vth rep = csub (voltageAt resV measure_a) (voltageAt resV measure_b)"
    and zth: "Zth rep = csub (voltageAt resZ measure_a) (voltageAt resZ measure_b)"
    by (simp_all add: rep)
  have only: "\<forall>mag p peak. maxPower rep = Some (mag, p, peak) \<longrightarrow>
        0 < re (Zth rep) \<and>
        p = (hypot (re (Vth rep)) (im (Vth rep)) * hypot (re (Vth rep)) (im (Vth rep)))
              / (lit 4 0 * re (Zth rep))"
    by (auto simp: rep Let_def isFinite_def square_def abs_cx_def split: if_splits)
  have inappl: "re (Zth rep) \<le> 0 \<longrightarrow> maxPower rep = None"
    using num_le_zero_not_pos [of "re (Zth rep)"]
    by (auto simp: rep Let_def isFinite_def)
  show ?thesis
    apply (rule exI [of _ built], rule exI [of _ resV], rule exI [of _ resZ])
    apply (intro conjI)
                apply (rule built)
               apply (rule resV)
              apply (rule resZ)
             apply (rule base(1))
            apply (rule base(2))
           apply (rule base(3))
          apply (rule off(1))
         apply (rule off(2))
        apply (rule els)
       apply (rule vth)
      apply (rule zth)
     apply (rule only)
    apply (rule inappl)
    done
qed

lemma port_cx_assemble:
  "assemble (baseNet port_cx_net None) 0 = ([[cx 1 0]], [cx (Fin False 1 1) (Fin False 3 0)])"
  by code_simp

lemma port_cx_off_assemble:
  "assemble (offNet2 (baseNet port_cx_net None) (Some ''n1'') (Some ''gnd'')) 0
     = ([[cx 1 0]], [cx 1 0])"
  by code_simp

lemma port_cx_linear:
  "solveLinear [[cx 1 0]] [cx (Fin False 1 1) (Fin False 3 0)] = Inr [cx (Fin False 1 1) (Fin False 3 0)]"
  "solveLinear [[cx 1 0]] [cx 1 0] = Inr [cx 1 0]"
  by code_simp+

lemma port_cx_Vth:
  "(case solveMNA (baseNet port_cx_net None) 0 of
      Inl _ \<Rightarrow> False
    | Inr r \<Rightarrow> voltageAt r (Some ''n1'') = cx (Fin False 1 1) (Fin False 3 0) \<and>
              voltageAt r (Some ''gnd'') = cx 0 0)"
  by (simp only: solveMNA_def port_cx_assemble port_cx_linear Let_def prod.case sum.case)
     code_simp

lemma port_cx_Zth:
  "(case solveMNA (offNet2 (baseNet port_cx_net None) (Some ''n1'') (Some ''gnd'')) 0 of
      Inl _ \<Rightarrow> False
    | Inr r \<Rightarrow> voltageAt r (Some ''n1'') = cx 1 0 \<and> voltageAt r (Some ''gnd'') = cx 0 0)"
  by (simp only: solveMNA_def port_cx_off_assemble port_cx_linear Let_def prod.case sum.case)
     code_simp

lemma re_cx: "re (cx a b) = a" and im_cx: "im (cx a b) = b"
  by (simp_all add: cx_def)

lemma port_cx_values:
  "csub (cx (Fin False 1 1) (Fin False 3 0)) (cx 0 0) = cx (Fin False 1 1) (Fin False 3 0)"
  "csub (cx 1 0) (cx 0 0) = cx 1 0"
  "hypot_V8 (Fin False 1 1) (Fin False 3 0) = Fin False 2029744922580605 (- 49)"
  "square (Fin False 2029744922580605 (- 49)) / (lit 4 0 * 1) = Fin False 7318349394477057 (- 51)"
  "(Fin False 2029744922580605 (- 49) * Fin False 2029744922580605 (- 49)) / (lit 4 0 * 1)
     = Fin False 7318349394477057 (- 51)"
  "Fin False 7318349394477057 (- 51) / lit 2 0 = Fin False 7318349394477057 (- 52)"
  "(0::num) < 1"
  by code_simp+

text \<open>
  A source of \<open>2+3j\<close> A across 1 ohm, on the V8 engine: \<open>Vth = 2+3i\<close>, \<open>Zth = 1\<close>, and the maximum
  power is \<open>3.2500000000000004\<close>.
\<close>

theorem portAnalysis_source_killed_net_and_max_power_witness:
  "\<exists>rep. portAnalysis hypot_V8 (Some port_cx_net) True 0 (Some ''n1'') (Some ''gnd'') None = Report rep \<and>
     Vth rep = cx (Fin False 1 1) (Fin False 3 0) \<and>
     Zth rep = cx 1 0 \<and>
     0 < re (Zth rep) \<and>
     maxPower rep = Some (Fin False 2029744922580605 (- 49), Fin False 7318349394477057 (- 51),
                          Fin False 7318349394477057 (- 52)) \<and>
     Fin False 7318349394477057 (- 51)
       = (hypot_V8 (re (Vth rep)) (im (Vth rep)) * hypot_V8 (re (Vth rep)) (im (Vth rep)))
           / (lit 4 0 * re (Zth rep)) \<and>
     (\<exists>resZ. solveMNA (offNet2 (baseNet port_cx_net None) (Some ''n1'') (Some ''gnd'')) 0 = Inr resZ \<and>
        Zth rep = csub (voltageAt resZ (Some ''n1'')) (voltageAt resZ (Some ''gnd''))) \<and>
     elements (offNet2 (baseNet port_cx_net None) (Some ''n1'') (Some ''gnd''))
       = [\<lparr>el_id = ''I1'', el_type = I, el_name = ''I1'', el_a = Some ''gnd'', el_b = Some ''n1'',
           el_value = Some ''0''\<rparr>,
          \<lparr>el_id = ''R1'', el_type = R, el_name = ''R1'', el_a = Some ''n1'', el_b = Some ''gnd'',
           el_value = Some ''1''\<rparr>,
          \<lparr>el_id = ''I_TEST'', el_type = I, el_name = ''I_TEST'', el_a = Some ''gnd'', el_b = Some ''n1'',
           el_value = Some ''1''\<rparr>]"
proof -
  obtain resV where resV: "solveMNA (baseNet port_cx_net None) 0 = Inr resV"
    and vV: "voltageAt resV (Some ''n1'') = cx (Fin False 1 1) (Fin False 3 0)"
      "voltageAt resV (Some ''gnd'') = cx 0 0"
    using port_cx_Vth by (cases "solveMNA (baseNet port_cx_net None) 0") auto
  obtain resZ where resZ: "solveMNA (offNet2 (baseNet port_cx_net None) (Some ''n1'') (Some ''gnd'')) 0 = Inr resZ"
    and vZ: "voltageAt resZ (Some ''n1'') = cx 1 0" "voltageAt resZ (Some ''gnd'') = cx 0 0"
    using port_cx_Zth
    by (cases "solveMNA (offNet2 (baseNet port_cx_net None) (Some ''n1'') (Some ''gnd'')) 0") auto
  define rep where "rep = \<lparr>Vth = cx (Fin False 1 1) (Fin False 3 0), Zth = cx 1 0,
     Inorton = cdiv (cx (Fin False 1 1) (Fin False 3 0)) (cx 1 0), ZLopt = cconj (cx 1 0),
     Rth = re (cx 1 0),
     maxPower = Some (Fin False 2029744922580605 (- 49), Fin False 7318349394477057 (- 51),
                      Fin False 7318349394477057 (- 52))\<rparr>"
  have run: "portAnalysis hypot_V8 (Some port_cx_net) True 0 (Some ''n1'') (Some ''gnd'') None = Report rep"
    by (simp add: portAnalysis_def truthy_def resV resZ vV vZ Let_def rep_def isFinite_def
                  port_cx_values re_cx im_cx abs_cx_def)
  note th = portAnalysis_source_killed_net_and_max_power [OF run]
  have f: "Vth rep = cx (Fin False 1 1) (Fin False 3 0)" "Zth rep = cx 1 0" "0 < re (Zth rep)"
    "maxPower rep = Some (Fin False 2029744922580605 (- 49), Fin False 7318349394477057 (- 51),
                          Fin False 7318349394477057 (- 52))"
    by (simp_all add: rep_def port_cx_values re_cx)
  from th f(4) have p: "Fin False 7318349394477057 (- 51)
       = (hypot_V8 (re (Vth rep)) (im (Vth rep)) * hypot_V8 (re (Vth rep)) (im (Vth rep)))
           / (lit 4 0 * re (Zth rep))"
    by auto
  from th resZ have z: "\<exists>resZ. solveMNA (offNet2 (baseNet port_cx_net None) (Some ''n1'') (Some ''gnd'')) 0 = Inr resZ \<and>
        Zth rep = csub (voltageAt resZ (Some ''n1'')) (voltageAt resZ (Some ''gnd''))"
    by auto
  from th have "elements (offNet2 (baseNet port_cx_net None) (Some ''n1'') (Some ''gnd''))
       = map (\<lambda>e. if el_type e = V \<or> el_type e = I then e\<lparr>el_value := Some ''0''\<rparr> else e)
             (elements (baseNet port_cx_net None)) @
         [\<lparr>el_id = ''I_TEST'', el_type = I, el_name = ''I_TEST'', el_a = Some ''gnd'', el_b = Some ''n1'',
           el_value = Some ''1''\<rparr>]"
    by auto
  then have e: "elements (offNet2 (baseNet port_cx_net None) (Some ''n1'') (Some ''gnd''))
       = [\<lparr>el_id = ''I1'', el_type = I, el_name = ''I1'', el_a = Some ''gnd'', el_b = Some ''n1'',
           el_value = Some ''0''\<rparr>,
          \<lparr>el_id = ''R1'', el_type = R, el_name = ''R1'', el_a = Some ''n1'', el_b = Some ''gnd'',
           el_value = Some ''1''\<rparr>,
          \<lparr>el_id = ''I_TEST'', el_type = I, el_name = ''I_TEST'', el_a = Some ''gnd'', el_b = Some ''n1'',
           el_value = Some ''1''\<rparr>]"
    by (simp add: baseNet_def port_cx_net_def truthy_def)
  show ?thesis
    apply (rule exI [of _ rep])
    apply (intro conjI)
           apply (rule run)
          apply (rule f(1))
         apply (rule f(2))
        apply (rule f(3))
       apply (rule f(4))
      apply (rule p)
     apply (rule z)
    apply (rule e)
    done
qed

section \<open>The imaginary marker in element values\<close>

text \<open>
  C6 (the code at the failing input). \<open>parseCx\<close> reads \<open>1+2i\<close> and \<open>1+2j\<close> alike, but the
  element-value path \<open>parseValueAsCx\<close> sends only strings containing \<open>j\<close> to \<open>parseCx\<close>:
  \<open>1+2j\<close> is the complex value \<open>1+2i\<close>, while \<open>1+2i\<close> goes to \<open>parseRealWithSI\<close> and
  becomes NaN.
\<close>

theorem parseValueAsCx_i_differs_from_j:
  "parseCx ''1+2i'' = Some (cx 1 (Fin False 1 1)) \<and>
   parseCx ''1+2j'' = Some (cx 1 (Fin False 1 1)) \<and>
   parseValueAsCx ''1+2j'' = cx 1 (Fin False 1 1) \<and>
   parseValueAsCx ''1+2i'' = cx NaN 0"
  by code_simp

section \<open>Facts about rounding\<close>

lemma pow2_eq: "pow2 k = 2 ^ nat k"
proof (induction k rule: pow2.induct)
  case (1 k)
  show ?case
  proof (cases "k \<le> 0")
    case True
    then show ?thesis by (simp add: pow2.simps)
  next
    case False
    show ?thesis
    proof (cases "even k")
      case True
      with False have ih: "pow2 (k div 2) = 2 ^ nat (k div 2)"
        using "1.IH"(1) by simp
      from True False have "nat k = nat (k div 2) + nat (k div 2)"
        by (auto elim!: evenE)
      then have "(2::int) ^ nat k = 2 ^ nat (k div 2) * 2 ^ nat (k div 2)"
        by (simp add: power_add)
      with True False ih show ?thesis
        by (subst pow2.simps) (simp add: Let_def)
    next
      case odd: False
      with False have ih: "pow2 (k - 1) = 2 ^ nat (k - 1)"
        using "1.IH"(2) by simp
      from False have "nat k = Suc (nat (k - 1))" by simp
      then have "(2::int) ^ nat k = 2 * 2 ^ nat (k - 1)"
        by simp
      with odd False ih show ?thesis
        by (subst pow2.simps) simp
    qed
  qed
qed

lemma pow2_pos: "0 < pow2 k"
  by (simp add: pow2_eq)

lemma bitlen_nonneg: "0 \<le> bitlen n"
  by (induction n rule: bitlen.induct) (subst bitlen.simps, simp)

lemma bitlen_bounds: "0 < n \<Longrightarrow> 2 ^ nat (bitlen n - 1) \<le> n \<and> n < 2 ^ nat (bitlen n)"
proof (induction n rule: bitlen.induct)
  case (1 n)
  show ?case
  proof (cases "n = 1")
    case True
    have "bitlen 1 = 1" by code_simp
    with True show ?thesis by simp
  next
    case False
    with "1.prems" have h: "0 < n div 2" by simp
    with "1.IH" "1.prems" have ih: "2 ^ nat (bitlen (n div 2) - 1) \<le> n div 2" "n div 2 < 2 ^ nat (bitlen (n div 2))"
      by simp_all
    have b: "bitlen n = 1 + bitlen (n div 2)"
      using "1.prems" by (subst bitlen.simps) simp
    have pos: "0 < bitlen (n div 2)"
      using h bitlen_nonneg [of "n div 2 div 2"] by (subst bitlen.simps) simp
    then have e1: "nat (bitlen n - 1) = Suc (nat (bitlen (n div 2) - 1))"
      and e2: "nat (bitlen n) = Suc (nat (bitlen (n div 2)))"
      using b by simp_all
    from ih show ?thesis
      unfolding e1 e2 by simp linarith
  qed
qed


lemma bitlen_1: "bitlen 1 = 1"
  by code_simp

lemma strip2_pos: "0 < m \<Longrightarrow> 0 < fst (strip2 m e)"
proof (induction m e rule: strip2.induct)
  case (1 m e)
  show ?case
  proof (cases "even m")
    case True
    with "1.prems" have "0 < m div 2" by (auto elim!: evenE)
    with "1.IH" "1.prems" True have "0 < fst (strip2 (m div 2) (e + 1))" by simp
    with "1.prems" True show ?thesis by (subst strip2.simps) simp
  next
    case False
    with "1.prems" show ?thesis by (subst strip2.simps) simp
  qed
qed

lemma num_eq_Fin_zero: "num_eq (Fin s m e) 0 \<longleftrightarrow> m = 0"
  using pow2_pos [of "e - min e 0"]
  by (auto simp: zero_num_def aligned_def Let_def signed_def)

lemma round_frac_int_nonzero:
  assumes n: "0 < n" and big: "- 1074 \<le> bitlen n - 1 + e"
  shows "\<not> num_eq (round_frac s n 1 e) 0"
proof -
  define k where "k = bitlen n - 1"
  define p where "p = max (k + e - 52) (- 1074)"
  define nu where "nu = n * pow2 (e - p)"
  define de where "de = 1 * pow2 (p - e)"
  define q where "q = nu div de"
  define r where "r = nu mod de"
  define m where "m = (if 2 * r < de then q else if de < 2 * r then q + 1
              else if even q then q else q + 1)"
  from bitlen_bounds [OF n] have lo: "2 ^ nat k \<le> n"
    by (simp add: k_def)
  have kpos: "0 \<le> k"
    using bitlen_bounds [OF n] n bitlen_nonneg [of n]
    by (cases "bitlen n = 0") (auto simp: k_def)
  have lg: "1 * pow2 k \<le> n * pow2 (- k)"
    using lo kpos by (simp add: pow2_eq)
  have rf: "round_frac s n 1 e =
      (if m = 0 then Fin s 0 0
        else if 971 < p \<or> (p = 971 \<and> pow2 53 \<le> m) then Infinity s
        else (case strip2 m p of (m', e') \<Rightarrow> Fin s m' e'))"
  proof -
    have "\<not> n \<le> 0" using n by simp
    then show ?thesis
      unfolding round_frac_def Let_def bitlen_1 k_def [symmetric]
      using lg
      by (simp only: if_True if_False p_def [symmetric])
         (simp only: nu_def [symmetric] de_def [symmetric] q_def [symmetric] r_def [symmetric]
            m_def [symmetric])
  qed
  have depos: "0 < de" by (simp add: de_def pow2_pos)
  have "de \<le> nu"
  proof (cases "p \<le> e")
    case True
    then have "de = 1" by (simp add: de_def pow2_eq)
    moreover have "1 \<le> pow2 (e - p)"
      by (simp add: pow2_eq)
    with n have "1 * 1 \<le> n * pow2 (e - p)"
      by (intro mult_mono) auto
    then have "1 \<le> nu"
      by (simp add: nu_def)
    ultimately show ?thesis by simp
  next
    case False
    then have "nu = n" by (simp add: nu_def pow2_eq)
    moreover have "p - e \<le> k"
      using big by (simp add: p_def k_def)
    then have "(2::int) ^ nat (p - e) \<le> 2 ^ nat k"
      by (intro power_increasing) auto
    moreover have "de = 2 ^ nat (p - e)"
      by (simp add: de_def pow2_eq)
    ultimately show ?thesis
      using lo by linarith
  qed
  with depos have "0 < nu div de"
    by (simp add: pos_imp_zdiv_pos_iff)
  then have "1 \<le> q"
    by (simp add: q_def)
  then have mpos: "0 < m"
    by (auto simp: m_def)
  show ?thesis
  proof (cases "971 < p \<or> (p = 971 \<and> pow2 53 \<le> m)")
    case True
    with mpos rf show ?thesis by (simp add: zero_num_def)
  next
    case False
    obtain m' e' where st: "strip2 m p = (m', e')" by (cases "strip2 m p") auto
    with strip2_pos [OF mpos, of p] have "0 < m'" by simp
    moreover from False mpos rf st have "round_frac s n 1 e = Fin s m' e'"
      by simp
    ultimately show ?thesis
      by (simp add: num_eq_Fin_zero)
  qed
qed



section \<open>Impedance of capacitors and inductors\<close>

lemma two_pi: "lit 2 0 * Math_PI = Fin False 884279719003555 (- 47)"
  by code_simp

lemma bitlen_ge: "2 ^ j \<le> n \<Longrightarrow> int j + 1 \<le> bitlen n"
proof -
  assume a: "2 ^ j \<le> n"
  then have n: "0 < n" by (smt (verit) zero_less_power)
  from bitlen_bounds [OF n] a have "(2::int) ^ j < 2 ^ nat (bitlen n)" by linarith
  then have "j < nat (bitlen n)" by simp
  then show ?thesis by linarith
qed

lemma omega_nonzero:
  assumes f: "is_f64 f" and pos: "0 < f"
  shows "Math_max 0 f = f" and "\<not> num_eq (lit 2 0 * Math_PI * f) 0"
proof -
  from pos have nn: "f \<noteq> NaN"
    by (auto simp: less_num_def zero_num_def)
  with pos show "Math_max 0 f = f"
    by (simp add: Math_max_def zero_num_def)
  show "\<not> num_eq (lit 2 0 * Math_PI * f) 0"
  proof (cases f)
    case NaN
    with nn show ?thesis by simp
  next
    case (Infinity s)
    then show ?thesis
      unfolding two_pi by (simp add: times_num_def zero_num_def)
  next
    case (Fin s m e)
    from pos Fin have "m \<noteq> 0"
      by (auto simp: less_num_def zero_num_def aligned_def Let_def signed_def split: if_splits)
    with f Fin have m: "0 < m" and e: "- 1074 \<le> e"
      by (auto simp: is_f64_def)
    have "2 ^ 49 \<le> 884279719003555 * m"
      using m by simp
    from bitlen_ge [OF this] have "50 \<le> bitlen (884279719003555 * m)" by simp
    with e have big: "- 1074 \<le> bitlen (884279719003555 * m) - 1 + (- 47 + e)" by simp
    have "0 < 884279719003555 * m" using m by simp
    from round_frac_int_nonzero [OF this big]
    show ?thesis
      unfolding Fin two_pi by (simp add: times_num_def)
  qed
qed

lemma dropWhile_trimmed:
  "dropWhile P (rev (dropWhile P (rev (dropWhile P s)))) = rev (dropWhile P (rev (dropWhile P s)))"
proof (cases "dropWhile P s")
  case Nil
  show ?thesis unfolding Nil by simp
next
  case (Cons x t)
  then have x: "\<not> P x"
    by (metis hd_dropWhile list.distinct(1) list.sel(1))
  have "\<exists>ys. dropWhile P (rev t @ [x]) = ys @ [x]"
    by (cases "\<forall>y \<in> set (rev t). P y") (auto simp: dropWhile_append x)
  then obtain ys where "dropWhile P (rev t @ [x]) = ys @ [x]" by blast
  with Cons x show ?thesis by simp
qed

lemma trim_trim: "trim (trim s) = trim s"
proof -
  have "dropWhile is_space (rev (trim s)) = rev (trim s)"
    by (simp add: trim_def)
  then show ?thesis
    by (simp add: trim_def dropWhile_trimmed)
qed

text \<open>
  C8. For a C or L element whose value is not sent to the complex parser and parses to a
  finite number \<open>x\<close>: at frequency 0 the impedance is the real constant \<open>1e18\<close> for C and
  \<open>1e-12\<close> for L (a finite, positive number each); at a frequency \<open>f > 0\<close> it is
  \<open>-j / (w * x)\<close> for C and \<open>j * (w * x)\<close> for L, with \<open>w = 2 * Math.PI * f\<close>.
\<close>

theorem elementImpedance_capacitor_inductor:
  assumes plain: "\<not> looksComplex val" and fin: "isFinite (parseRealWithSI val)"
  shows
    "(num_eq f 0 \<longrightarrow>
        elementImpedance C val f = cx (lit 1 18) 0 \<and>
        elementImpedance L val f = cx (lit 1 (- 12)) 0) \<and>
     (is_f64 f \<and> 0 < f \<longrightarrow>
        elementImpedance C val f = cx 0 (- 1 / (lit 2 0 * Math_PI * f * parseRealWithSI val)) \<and>
        elementImpedance L val f = cx 0 (lit 2 0 * Math_PI * f * parseRealWithSI val)) \<and>
     isFinite (lit 1 18) \<and> 0 < lit 1 18 \<and> 0 < lit 1 (- 12)"
proof -
  have lc: "\<not> looksComplex (trim val)"
    using plain by (simp add: looksComplex_def trim_trim)
  have pr: "parseRealWithSI (trim val) = parseRealWithSI val"
    by (simp add: parseRealWithSI_def trim_trim)
  have zero: "elementImpedance C val f = cx (lit 1 18) 0 \<and>
        elementImpedance L val f = cx (lit 1 (- 12)) 0" if z: "num_eq f 0"
  proof -
    have "\<exists>s e. f = Fin s 0 e"
    proof (cases f)
      case (Fin s m e)
      with z show ?thesis by (simp add: num_eq_Fin_zero)
    next
      case (Infinity s)
      with z show ?thesis by (simp add: zero_num_def)
    next
      case NaN
      with z show ?thesis by simp
    qed
    then obtain s e where "f = Fin s 0 e" by blast
    then have "Math_max 0 f = 0"
      by (auto simp: Math_max_def zero_num_def less_num_def aligned_def Let_def signed_def)
    moreover have "num_eq (lit 2 0 * Math_PI * 0) 0"
      by code_simp
    ultimately have "num_eq (lit 2 0 * Math_PI * Math_max 0 f) 0"
      by simp
    with lc pr fin show ?thesis
      by (simp add: elementImpedance_def Let_def)
  qed
  have posf: "elementImpedance C val f = cx 0 (- 1 / (lit 2 0 * Math_PI * f * parseRealWithSI val)) \<and>
        elementImpedance L val f = cx 0 (lit 2 0 * Math_PI * f * parseRealWithSI val)"
    if "is_f64 f" and "0 < f"
    using omega_nonzero [OF that] lc pr fin
    by (simp add: elementImpedance_def Let_def)
  have cst: "isFinite (lit 1 18) \<and> 0 < lit 1 18 \<and> 0 < lit 1 (- 12)"
    by code_simp
  from zero posf cst show ?thesis by blast
qed


theorem elementImpedance_capacitor_inductor_witness:
  "\<not> looksComplex ''1u'' \<and> isFinite (parseRealWithSI ''1u'') \<and>
   num_eq 0 0 \<and> is_f64 (Fin False 15 2) \<and> 0 < Fin False 15 2 \<and>
   elementImpedance C ''1u'' 0 = cx (lit 1 18) 0 \<and>
   elementImpedance L ''1u'' 0 = cx (lit 1 (- 12)) 0 \<and>
   elementImpedance C ''1u'' (Fin False 15 2)
     = cx 0 (- 1 / (lit 2 0 * Math_PI * Fin False 15 2 * parseRealWithSI ''1u'')) \<and>
   elementImpedance L ''1u'' (Fin False 15 2)
     = cx 0 (lit 2 0 * Math_PI * Fin False 15 2 * parseRealWithSI ''1u'')"
proof -
  have h: "\<not> looksComplex ''1u''" "isFinite (parseRealWithSI ''1u'')"
    by code_simp+
  have f: "num_eq 0 0" "is_f64 (Fin False 15 2)" "0 < Fin False 15 2"
    by code_simp+
  from elementImpedance_capacitor_inductor [OF h, of 0]
       elementImpedance_capacitor_inductor [OF h, of "Fin False 15 2"] h f
  show ?thesis by blast
qed

section \<open>SI suffixes\<close>

lemma takeWhile_prefix:
  "list_all P xs \<Longrightarrow> ys = [] \<or> \<not> P (hd ys) \<Longrightarrow> takeWhile P (xs @ ys) = xs"
  by (cases ys) (auto simp: list_all_iff)

lemma dropWhile_prefix:
  "list_all P xs \<Longrightarrow> dropWhile P (xs @ ys) = dropWhile P ys"
  by (auto simp: list_all_iff)

lemma dropWhile_stop: "ys = [] \<or> \<not> P (hd ys) \<Longrightarrow> dropWhile P ys = ys"
  by (cases ys) auto

lemma takeWhile_stop: "ys = [] \<or> \<not> P (hd ys) \<Longrightarrow> takeWhile P ys = []"
  by (cases ys) auto

lemma take_sign_text:
  "is_sign_text sg \<Longrightarrow> r = [] \<or> \<not> is_sign (hd r) \<Longrightarrow> take_sign (sg @ r) = (sg = ''-'', r)"
  by (cases r) (auto simp: is_sign_text_def take_sign_def is_sign_def)

lemma digit_not_sign: "is_digit c \<Longrightarrow> \<not> is_sign c"
  by (auto simp: is_digit_def is_sign_def)

lemma alpha_not_digit: "is_alpha c \<Longrightarrow> \<not> is_digit c"
  by (auto simp: is_digit_def is_alpha_def is_lower_def is_upper_def)

lemma alpha_not_sign: "is_alpha c \<Longrightarrow> \<not> is_sign c"
  by (auto simp: is_sign_def is_alpha_def is_lower_def is_upper_def)

lemma alpha_not_space: "is_alpha c \<Longrightarrow> \<not> is_space c"
  by (auto simp: is_space_def is_alpha_def is_lower_def is_upper_def)

lemma alpha_not_dot: "is_alpha c \<Longrightarrow> c \<noteq> CHR ''.''"
  by (auto simp: is_alpha_def is_lower_def is_upper_def)

lemma digit_not_space: "is_digit c \<Longrightarrow> \<not> is_space c"
  by (auto simp: is_digit_def is_space_def)

lemma take_exp_text:
  assumes ex: "case ex of None \<Rightarrow> True | Some (sg, es) \<Rightarrow> is_sign_text sg \<and> is_digits es"
    and suf: "list_all is_alpha suf"
  shows "take_exp (exp_text ex @ suf) = (exp_val ex, suf)"
proof (cases ex)
  case None
  show ?thesis
  proof (cases suf)
    case Nil
    with None show ?thesis by (simp add: take_exp_def exp_text_def exp_val_def)
  next
    case (Cons c r)
    with suf have r: "list_all is_alpha r" by simp
    then have "r = [] \<or> \<not> is_sign (hd r)" "r = [] \<or> \<not> is_digit (hd r)"
      by (cases r; simp add: alpha_not_sign alpha_not_digit)+
    then have "take_sign r = (False, r)" "takeWhile is_digit r = []"
      using take_sign_text [of "[]" r] by (simp_all add: is_sign_text_def takeWhile_stop)
    with None Cons show ?thesis
      by (simp add: take_exp_def exp_text_def exp_val_def)
  qed
next
  case (Some p)
  obtain sg es where p: "p = (sg, es)" by (cases p)
  with ex Some have sg: "is_sign_text sg" and es: "is_digits es" by simp_all
  from es have es1: "es \<noteq> []" "list_all is_digit es" by (simp_all add: is_digits_def)
  then have nd: "es @ suf = [] \<or> \<not> is_sign (hd (es @ suf))"
    by (cases es) (auto simp: digit_not_sign)
  have st: "suf = [] \<or> \<not> is_digit (hd suf)"
    using suf by (cases suf) (auto simp: alpha_not_digit)
  have ts: "take_sign (sg @ es @ suf) = (sg = ''-'', es @ suf)"
    using take_sign_text [OF sg nd] by simp
  have tw: "takeWhile is_digit (es @ suf) = es" "dropWhile is_digit (es @ suf) = suf"
    using es1 st by (simp_all add: takeWhile_prefix dropWhile_prefix dropWhile_stop)
  show ?thesis
    using es1 by (simp add: take_exp_def exp_text_def exp_val_def Some p ts tw)
qed


lemma literal_text_split:
  "literal_text l = l_sign l @ l_int l @ (if l_frac l = [] then [] else CHR ''.'' # l_frac l) @ exp_text (l_exp l)"
  by (simp add: literal_text_def exp_text_def)

lemma literal_decimal_exp: "d_exp (literal_decimal l) = exp_val (l_exp l)"
  by (simp add: literal_decimal_def exp_val_def)

lemma exp_text_head: "exp_text ex @ suf = [] \<or> hd (exp_text ex @ suf) = CHR ''e'' \<or> (ex = None \<and> exp_text ex @ suf = suf)"
  by (cases ex) (auto simp: exp_text_def)

lemma e_not_digit: "\<not> is_digit CHR ''e''" and dot_not_digit: "\<not> is_digit CHR ''.''"
  and e_not_dot: "CHR ''e'' \<noteq> CHR ''.''"
  by (simp_all add: is_digit_def)

lemma rest_no_digit:
  assumes "list_all is_alpha suf"
  shows "exp_text ex @ suf = [] \<or> \<not> is_digit (hd (exp_text ex @ suf))"
    and "exp_text ex @ suf = [] \<or> hd (exp_text ex @ suf) \<noteq> CHR ''.''"
  using assms exp_text_head [of ex suf]
  by (cases suf; auto simp: e_not_digit alpha_not_digit alpha_not_dot)+

text \<open>The stages up to the exponent, shared by both patterns.\<close>

lemma literal_text_parts:
  "literal_text l = l_sign l @ l_int l @ frac_text (l_frac l) @ exp_text (l_exp l)"
  by (simp add: literal_text_def exp_text_def frac_text_def)

lemma literal_stages:
  assumes ok: "literal_ok l" and suf: "list_all is_alpha suf"
  shows "take_sign (literal_text l @ suf) =
           (l_sign l = ''-'', l_int l @ frac_text (l_frac l) @ exp_text (l_exp l) @ suf)"
    and "takeWhile is_digit (l_int l @ frac_text (l_frac l) @ exp_text (l_exp l) @ suf) = l_int l"
    and "dropWhile is_digit (l_int l @ frac_text (l_frac l) @ exp_text (l_exp l) @ suf)
           = frac_text (l_frac l) @ exp_text (l_exp l) @ suf"
    and "l_frac l \<noteq> [] \<Longrightarrow> takeWhile is_digit (l_frac l @ exp_text (l_exp l) @ suf) = l_frac l"
    and "l_frac l \<noteq> [] \<Longrightarrow> dropWhile is_digit (l_frac l @ exp_text (l_exp l) @ suf) = exp_text (l_exp l) @ suf"
    and "take_exp (exp_text (l_exp l) @ suf) = (exp_val (l_exp l), suf)"
proof -
  from ok have sg: "is_sign_text (l_sign l)" and di: "l_int l \<noteq> []" "list_all is_digit (l_int l)"
    and fr: "list_all is_digit (l_frac l)"
    and ex: "case l_exp l of None \<Rightarrow> True | Some (sg, es) \<Rightarrow> is_sign_text sg \<and> is_digits es"
    by (simp_all add: literal_ok_def is_digits_def)
  let ?tail = "exp_text (l_exp l) @ suf"
  let ?rest = "frac_text (l_frac l) @ ?tail"
  have tail: "?tail = [] \<or> \<not> is_digit (hd ?tail)"
    using rest_no_digit(1) [OF suf] .
  have rest: "?rest = [] \<or> \<not> is_digit (hd ?rest)"
    using tail by (auto simp: frac_text_def dot_not_digit)
  from di have "l_int l @ ?rest = [] \<or> \<not> is_sign (hd (l_int l @ ?rest))"
    by (cases "l_int l") (auto simp: digit_not_sign)
  from take_sign_text [OF sg this]
  show "take_sign (literal_text l @ suf) = (l_sign l = ''-'', l_int l @ ?rest)"
    by (simp add: literal_text_parts)
  show "takeWhile is_digit (l_int l @ ?rest) = l_int l"
    using takeWhile_prefix [of is_digit "l_int l" ?rest, OF di(2) rest] .
  show "dropWhile is_digit (l_int l @ ?rest) = ?rest"
    using dropWhile_prefix [OF di(2), of ?rest] dropWhile_stop [of ?rest is_digit, OF rest] by simp
  show "takeWhile is_digit (l_frac l @ ?tail) = l_frac l"
    using takeWhile_prefix [of is_digit "l_frac l" ?tail, OF fr tail] .
  show "dropWhile is_digit (l_frac l @ ?tail) = ?tail"
    using dropWhile_prefix [OF fr, of ?tail] dropWhile_stop [of ?tail is_digit, OF tail] by simp
  show "take_exp (?tail) = (exp_val (l_exp l), suf)"
    using take_exp_text [OF ex suf] .
qed

lemma suffix_stage:
  assumes suf: "list_all is_alpha suf"
  shows "dropWhile is_space suf = suf" "takeWhile is_alpha suf = suf" "dropWhile is_alpha suf = []"
proof -
  have "suf = [] \<or> \<not> is_space (hd suf)"
    using suf by (cases suf) (auto simp: alpha_not_space)
  then show "dropWhile is_space suf = suf" by (rule dropWhile_stop)
  show "takeWhile is_alpha suf = suf" "dropWhile is_alpha suf = []"
    using suf by (simp_all add: list_all_iff)
qed

lemma match_real_SI_literal:
  assumes ok: "literal_ok l" and suf: "list_all is_alpha suf"
  shows "match_real_SI (literal_text l @ suf) = Some (literal_decimal l, suf)"
proof -
  note st = literal_stages [OF ok suf]
  have di: "l_int l \<noteq> []" using ok by (simp add: literal_ok_def is_digits_def)
  have tail: "exp_text (l_exp l) @ suf = [] \<or> hd (exp_text (l_exp l) @ suf) \<noteq> CHR ''.''"
    using rest_no_digit(2) [OF suf] .
  have frac: "(case frac_text (l_frac l) @ exp_text (l_exp l) @ suf of
                 c # r \<Rightarrow> if c = CHR ''.'' \<and> takeWhile is_digit r \<noteq> []
                          then (takeWhile is_digit r, dropWhile is_digit r)
                          else ([], frac_text (l_frac l) @ exp_text (l_exp l) @ suf)
               | [] \<Rightarrow> ([], frac_text (l_frac l) @ exp_text (l_exp l) @ suf))
             = (l_frac l, exp_text (l_exp l) @ suf)"
  proof (cases "l_frac l = []")
    case True
    with tail show ?thesis
      by (cases "exp_text (l_exp l) @ suf") (auto simp: frac_text_def)
  next
    case False
    with st(4,5) show ?thesis
      by (simp add: frac_text_def)
  qed
  show ?thesis
    unfolding match_real_SI_def st(1) prod.case Let_def st(2) st(3) frac st(6) suffix_stage [OF suf]
    using di by (simp add: literal_decimal_def exp_val_def)
qed

lemma trim_id: "s = [] \<or> (\<not> is_space (hd s) \<and> \<not> is_space (last s)) \<Longrightarrow> trim s = s"
proof (cases s)
  case Nil
  then show ?thesis by (simp add: trim_def)
next
  case (Cons c r)
  assume "s = [] \<or> (\<not> is_space (hd s) \<and> \<not> is_space (last s))"
  with Cons have h: "\<not> is_space (hd s)" and l: "\<not> is_space (last s)" by auto
  from h have "dropWhile is_space s = s"
    by (intro dropWhile_stop) simp
  moreover from l have "rev s = [] \<or> \<not> is_space (hd (rev s))"
    by (simp add: hd_rev)
  then have "dropWhile is_space (rev s) = rev s"
    by (rule dropWhile_stop)
  ultimately show ?thesis by (simp add: trim_def)
qed

lemma literal_chars:
  assumes ok: "literal_ok l" and c: "c \<in> set (literal_text l)"
  shows "is_digit c \<or> is_sign c \<or> c = CHR ''.'' \<or> c = CHR ''e''"
proof -
  from ok have sg: "is_sign_text (l_sign l)" and di: "list_all is_digit (l_int l)"
    and fr: "list_all is_digit (l_frac l)"
    and ex: "case l_exp l of None \<Rightarrow> True | Some (sg, es) \<Rightarrow> is_sign_text sg \<and> is_digits es"
    by (simp_all add: literal_ok_def is_digits_def)
  from c show ?thesis
    using sg di fr ex
    by (auto simp: literal_text_def is_sign_text_def is_sign_def list_all_iff is_digits_def
             split: option.splits if_splits)
qed

lemma literal_ends:
  assumes ok: "literal_ok l" and suf: "list_all is_alpha suf"
  shows "\<not> is_space (hd (literal_text l @ suf)) \<and> \<not> is_space (last (literal_text l @ suf))"
    and "list_all (\<lambda>c. \<not> is_space c) (literal_text l @ suf)"
    and "literal_text l \<noteq> []"
proof -
  have ns: "\<not> is_space c" if "c \<in> set (literal_text l @ suf)" for c
  proof -
    from that consider "c \<in> set (literal_text l)" | "c \<in> set suf" by auto
    then show ?thesis
    proof cases
      case 1
      from literal_chars [OF ok 1] show ?thesis
        by (auto simp: is_space_def is_digit_def is_sign_def)
    next
      case 2
      with suf show ?thesis by (auto simp: list_all_iff alpha_not_space)
    qed
  qed
  show ne0: "literal_text l \<noteq> []"
    using ok by (simp add: literal_text_def literal_ok_def is_digits_def)
  then have ne: "literal_text l @ suf \<noteq> []" by simp
  from ns show "list_all (\<lambda>c. \<not> is_space c) (literal_text l @ suf)"
    by (simp add: list_all_iff)
  from ne ns show "\<not> is_space (hd (literal_text l @ suf)) \<and> \<not> is_space (last (literal_text l @ suf))"
    by (metis hd_in_set last_in_set)
qed

lemma parseRealWithSI_literal:
  assumes ok: "literal_ok l" and suf: "list_all is_alpha suf"
    and fin: "isFinite (Number_of (literal_decimal l))"
  shows "parseRealWithSI (literal_text l @ suf) =
           (if isFinite (si_mult (toLowerCase suf))
            then Number_of (literal_decimal l) * si_mult (toLowerCase suf) else NaN)"
proof -
  have t: "trim (literal_text l @ suf) = literal_text l @ suf"
    using literal_ends(1) [OF ok suf] by (intro trim_id) simp
  show ?thesis
    using fin literal_ends(3) [OF ok suf]
    by (simp add: parseRealWithSI_def t match_real_SI_literal [OF ok suf] Let_def)
qed


lemma match_real_cx_literal:
  assumes ok: "literal_ok l" and suf: "list_all is_alpha suf"
  shows "match_real_cx (literal_text l @ suf) =
           (case suf of
              [] \<Rightarrow> Some (literal_decimal l, [])
            | c # r \<Rightarrow> if c \<in> set ''kKmMuUnNpP'' \<and> r = [] then Some (literal_decimal l, [c]) else None)"
proof -
  note st = literal_stages [OF ok suf]
  have di: "l_int l \<noteq> []" using ok by (simp add: literal_ok_def is_digits_def)
  have tail: "exp_text (l_exp l) @ suf = [] \<or> hd (exp_text (l_exp l) @ suf) \<noteq> CHR ''.''"
    using rest_no_digit(2) [OF suf] .
  have frac: "(case frac_text (l_frac l) @ exp_text (l_exp l) @ suf of
                 c # r \<Rightarrow> if c = CHR ''.''
                          then Some (takeWhile is_digit r, dropWhile is_digit r)
                          else Some ([], frac_text (l_frac l) @ exp_text (l_exp l) @ suf)
               | [] \<Rightarrow> Some ([], frac_text (l_frac l) @ exp_text (l_exp l) @ suf))
             = Some (l_frac l, exp_text (l_exp l) @ suf)"
  proof (cases "l_frac l = []")
    case True
    with tail show ?thesis
      by (cases "exp_text (l_exp l) @ suf") (auto simp: frac_text_def)
  next
    case False
    with st(4,5) show ?thesis
      by (simp add: frac_text_def)
  qed
  have dec: "\<lparr>d_neg = l_sign l = ''-'', d_int = l_int l, d_frac = l_frac l, d_exp = exp_val (l_exp l)\<rparr>
      = literal_decimal l"
    by (simp add: literal_decimal_def exp_val_def)
  show ?thesis
    unfolding match_real_cx_def st(1) prod.case Let_def st(2) st(3)
    using di by (simp only: if_True not_False_eq_True frac option.case prod.case st(6) dec refl)
qed

lemma lower_char_j: "lower_char c = CHR ''j'' \<longleftrightarrow> c = CHR ''j'' \<or> c = CHR ''J''"
  by (auto simp: lower_char_def split: if_splits)

lemma literal_no_marker:
  assumes ok: "literal_ok l" and c: "c \<in> set (literal_text l)"
  shows "c \<noteq> CHR ''j''" "c \<noteq> CHR ''J''" "c \<noteq> CHR ''i''"
  using literal_chars [OF ok c] by (auto simp: is_digit_def is_sign_def)

lemma parseCx_literal:
  assumes ok: "literal_ok l" and suf: "list_all is_alpha suf"
    and nm: "CHR ''i'' \<notin> set suf" "CHR ''j'' \<notin> set suf" "CHR ''J'' \<notin> set suf"
    and fin: "isFinite (Number_of (literal_decimal l))"
  shows "parseCx (literal_text l @ suf) =
           (case suf of
              [] \<Rightarrow> Some \<lparr>re = Number_of (literal_decimal l), im = 0\<rparr>
            | c # r \<Rightarrow>
                if c \<in> set ''kKmMuUnNpP'' \<and> r = []
                then Some \<lparr>re = Number_of (literal_decimal l) * (case mulMap [c] of Some f \<Rightarrow> f | None \<Rightarrow> 1),
                           im = 0\<rparr>
                else None)"
proof -
  let ?s = "literal_text l @ suf"
  have t: "trim ?s = ?s"
    using literal_ends(1) [OF ok suf] by (intro trim_id) simp
  have f: "filter (\<lambda>c. \<not> is_space c) ?s = ?s"
    using literal_ends(2) [OF ok suf] by (simp add: list_all_iff)
  have nomark: "c \<noteq> CHR ''j'' \<and> c \<noteq> CHR ''J'' \<and> c \<noteq> CHR ''i''" if "c \<in> set ?s" for c
    using that literal_no_marker [OF ok, of c] nm by auto
  then have j: "j_to_i ?s = ?s"
    unfolding j_to_i_def by (intro map_idI) auto
  have noi: "CHR ''i'' \<notin> set ?s"
    using nomark by blast
  have ne: "?s \<noteq> []" using literal_ends(3) [OF ok suf] by simp
  have pr: "parseReal ?s =
           (case suf of
              [] \<Rightarrow> Some (Number_of (literal_decimal l))
            | c # r \<Rightarrow>
                if c \<in> set ''kKmMuUnNpP'' \<and> r = []
                then Some (Number_of (literal_decimal l) * (case mulMap [c] of Some f \<Rightarrow> f | None \<Rightarrow> 1))
                else None)"
    using ne fin
    by (simp add: parseReal_def match_real_cx_literal [OF ok suf] Let_def split: list.splits)
  show ?thesis
    unfolding parseCx_def t f Let_def j
    using ne noi by (simp add: pr split: list.splits)
qed

lemma parseValueAsCx_literal:
  assumes ok: "literal_ok l" and suf: "list_all is_alpha suf"
    and nm: "CHR ''j'' \<notin> set suf" "CHR ''J'' \<notin> set suf"
  shows "parseValueAsCx (literal_text l @ suf) = cx (parseRealWithSI (literal_text l @ suf)) 0"
proof -
  let ?s = "literal_text l @ suf"
  have t: "trim ?s = ?s"
    using literal_ends(1) [OF ok suf] by (intro trim_id) simp
  have "lower_char c \<noteq> CHR ''j''" if "c \<in> set ?s" for c
    using that literal_no_marker [OF ok, of c] nm by (auto simp: lower_char_j)
  then have "\<not> looksComplex ?s"
    unfolding looksComplex_def t toLowerCase_def by (metis (no_types, lifting) imageE list.set_map)
  moreover have "literal_text l \<noteq> []" using literal_ends(3) [OF ok suf] .
  ultimately show ?thesis
    by (simp add: parseValueAsCx_def t Let_def parseRealWithSI_def)
qed

lemma si_table_finite:
  "isFinite (1::num)" "isFinite (lit 1 3)" "isFinite (lit 1 (- 3))" "isFinite (lit 1 (- 6))"
  "isFinite (lit 1 (- 9))" "isFinite (lit 1 (- 12))" "isFinite (lit 1 6)" "isFinite (lit 1 9)"
  "\<not> isFinite NaN"
  by code_simp+

lemma mulMap_table:
  "mulMap ''p'' = Some (lit 1 (- 12))" "mulMap ''P'' = Some (lit 1 (- 12))"
  "mulMap ''n'' = Some (lit 1 (- 9))" "mulMap ''N'' = Some (lit 1 (- 9))"
  "mulMap ''u'' = Some (lit 1 (- 6))" "mulMap ''U'' = Some (lit 1 (- 6))"
  "mulMap ''m'' = Some (lit 1 (- 3))" "mulMap ''M'' = Some (lit 1 6)"
  "mulMap ''k'' = Some (lit 1 3)" "mulMap ''K'' = Some (lit 1 3)"
  by (simp_all add: mulMap_def)

text \<open>The table of \<open>parseCx\<close> for one letter.\<close>

lemma cx_letter_table:
  "(if c \<in> set ''kKmMuUnNpP'' \<and> r = []
    then Some \<lparr>re = b * (case mulMap [c] of Some f \<Rightarrow> f | None \<Rightarrow> 1), im = 0\<rparr>
    else None) =
   (if c # r = [] then Some (cx b 0)
    else if c # r = ''p'' \<or> c # r = ''P'' then Some (cx (b * lit 1 (- 12)) 0)
    else if c # r = ''n'' \<or> c # r = ''N'' then Some (cx (b * lit 1 (- 9)) 0)
    else if c # r = ''u'' \<or> c # r = ''U'' then Some (cx (b * lit 1 (- 6)) 0)
    else if c # r = ''m'' then Some (cx (b * lit 1 (- 3)) 0)
    else if c # r = ''k'' \<or> c # r = ''K'' then Some (cx (b * lit 1 3) 0)
    else if c # r = ''M'' then Some (cx (b * lit 1 6) 0)
    else None)"
proof (cases "r = []")
  case False
  then show ?thesis by simp
next
  case True
  let ?goal = "(if c \<in> set ''kKmMuUnNpP'' \<and> r = []
    then Some \<lparr>re = b * (case mulMap [c] of Some f \<Rightarrow> f | None \<Rightarrow> 1), im = 0\<rparr>
    else None) =
   (if c # r = [] then Some (cx b 0)
    else if c # r = ''p'' \<or> c # r = ''P'' then Some (cx (b * lit 1 (- 12)) 0)
    else if c # r = ''n'' \<or> c # r = ''N'' then Some (cx (b * lit 1 (- 9)) 0)
    else if c # r = ''u'' \<or> c # r = ''U'' then Some (cx (b * lit 1 (- 6)) 0)
    else if c # r = ''m'' then Some (cx (b * lit 1 (- 3)) 0)
    else if c # r = ''k'' \<or> c # r = ''K'' then Some (cx (b * lit 1 3) 0)
    else if c # r = ''M'' then Some (cx (b * lit 1 6) 0)
    else None)"
  have 1: ?goal if "c = CHR ''k''" unfolding that True by (simp add: mulMap_table cx_def)
  have 2: ?goal if "c = CHR ''K''" unfolding that True by (simp add: mulMap_table cx_def)
  have 3: ?goal if "c = CHR ''m''" unfolding that True by (simp add: mulMap_table cx_def)
  have 4: ?goal if "c = CHR ''M''" unfolding that True by (simp add: mulMap_table cx_def)
  have 5: ?goal if "c = CHR ''u''" unfolding that True by (simp add: mulMap_table cx_def)
  have 6: ?goal if "c = CHR ''U''" unfolding that True by (simp add: mulMap_table cx_def)
  have 7: ?goal if "c = CHR ''n''" unfolding that True by (simp add: mulMap_table cx_def)
  have 8: ?goal if "c = CHR ''N''" unfolding that True by (simp add: mulMap_table cx_def)
  have 9: ?goal if "c = CHR ''p''" unfolding that True by (simp add: mulMap_table cx_def)
  have 10: ?goal if "c = CHR ''P''" unfolding that True by (simp add: mulMap_table cx_def)
  have 0: ?goal if "c \<noteq> CHR ''k''" "c \<noteq> CHR ''K''" "c \<noteq> CHR ''m''" "c \<noteq> CHR ''M''"
      "c \<noteq> CHR ''u''" "c \<noteq> CHR ''U''" "c \<noteq> CHR ''n''" "c \<noteq> CHR ''N''"
      "c \<noteq> CHR ''p''" "c \<noteq> CHR ''P''"
    using that unfolding True by simp
  show ?thesis
    apply (cases "c = CHR ''k''")
     apply (erule 1)
    apply (cases "c = CHR ''K''")
     apply (erule 2)
    apply (cases "c = CHR ''m''")
     apply (erule 3)
    apply (cases "c = CHR ''M''")
     apply (erule 4)
    apply (cases "c = CHR ''u''")
     apply (erule 5)
    apply (cases "c = CHR ''U''")
     apply (erule 6)
    apply (cases "c = CHR ''n''")
     apply (erule 7)
    apply (cases "c = CHR ''N''")
     apply (erule 8)
    apply (cases "c = CHR ''p''")
     apply (erule 9)
    apply (cases "c = CHR ''P''")
     apply (erule 10)
    apply (rule 0; assumption)
    done
qed

text \<open>
  C7 (as the code has it). Let \<open>t\<close> be the text of a numeric literal (optional sign, digits,
  optional fraction, optional exponent) whose value \<open>b = Number(t)\<close> is finite, followed by a
  suffix of letters. \<open>parseRealWithSI\<close>, which reads the element values of the solver,
  lower-cases the suffix: in any letter case, \<open>p\<close> scales by \<open>1e-12\<close>, \<open>n\<close> by \<open>1e-9\<close>, \<open>u\<close>
  by \<open>1e-6\<close>, \<open>m\<close> by \<open>1e-3\<close> (so an upper-case \<open>M\<close> is milli), \<open>k\<close> by \<open>1e3\<close>, \<open>meg\<close> by
  \<open>1e6\<close> and \<open>g\<close> by \<open>1e9\<close>; an empty suffix scales by 1 and every other suffix gives NaN.
  \<open>parseValueAsCx\<close> gives the same number as a real value when the suffix has no \<open>j\<close>.
  \<open>parseCx\<close>, for a suffix without the markers \<open>i\<close> and \<open>j\<close>, takes exactly one letter as
  written: \<open>p\<close>, \<open>P\<close> scale by \<open>1e-12\<close>, \<open>n\<close>, \<open>N\<close> by \<open>1e-9\<close>, \<open>u\<close>, \<open>U\<close> by \<open>1e-6\<close>, \<open>m\<close>
  by \<open>1e-3\<close>, \<open>k\<close>, \<open>K\<close> by \<open>1e3\<close> and \<open>M\<close> by \<open>1e6\<close>; it has no value for any other suffix,
  \<open>meg\<close> and \<open>g\<close> among them.
\<close>

theorem si_suffix_scaling:
  assumes ok: "literal_ok l" and fin: "isFinite (Number_of (literal_decimal l))"
    and suf: "list_all is_alpha suf"
  shows "parseRealWithSI (literal_text l @ suf) =
           (if toLowerCase suf = [] then Number_of (literal_decimal l) * 1
            else if toLowerCase suf = ''p'' then Number_of (literal_decimal l) * lit 1 (- 12)
            else if toLowerCase suf = ''n'' then Number_of (literal_decimal l) * lit 1 (- 9)
            else if toLowerCase suf = ''u'' then Number_of (literal_decimal l) * lit 1 (- 6)
            else if toLowerCase suf = ''m'' then Number_of (literal_decimal l) * lit 1 (- 3)
            else if toLowerCase suf = ''k'' then Number_of (literal_decimal l) * lit 1 3
            else if toLowerCase suf = ''meg'' then Number_of (literal_decimal l) * lit 1 6
            else if toLowerCase suf = ''g'' then Number_of (literal_decimal l) * lit 1 9
            else NaN) \<and>
         (CHR ''j'' \<notin> set suf \<and> CHR ''J'' \<notin> set suf \<longrightarrow>
            parseValueAsCx (literal_text l @ suf) = cx (parseRealWithSI (literal_text l @ suf)) 0) \<and>
         (CHR ''i'' \<notin> set suf \<and> CHR ''j'' \<notin> set suf \<and> CHR ''J'' \<notin> set suf \<longrightarrow>
            parseCx (literal_text l @ suf) =
              (if suf = [] then Some (cx (Number_of (literal_decimal l)) 0)
               else if suf = ''p'' \<or> suf = ''P'' then Some (cx (Number_of (literal_decimal l) * lit 1 (- 12)) 0)
               else if suf = ''n'' \<or> suf = ''N'' then Some (cx (Number_of (literal_decimal l) * lit 1 (- 9)) 0)
               else if suf = ''u'' \<or> suf = ''U'' then Some (cx (Number_of (literal_decimal l) * lit 1 (- 6)) 0)
               else if suf = ''m'' then Some (cx (Number_of (literal_decimal l) * lit 1 (- 3)) 0)
               else if suf = ''k'' \<or> suf = ''K'' then Some (cx (Number_of (literal_decimal l) * lit 1 3) 0)
               else if suf = ''M'' then Some (cx (Number_of (literal_decimal l) * lit 1 6) 0)
               else None))"
proof -
  let ?b = "Number_of (literal_decimal l)"
  have si: "parseRealWithSI (literal_text l @ suf) =
           (if toLowerCase suf = [] then ?b * 1
            else if toLowerCase suf = ''p'' then ?b * lit 1 (- 12)
            else if toLowerCase suf = ''n'' then ?b * lit 1 (- 9)
            else if toLowerCase suf = ''u'' then ?b * lit 1 (- 6)
            else if toLowerCase suf = ''m'' then ?b * lit 1 (- 3)
            else if toLowerCase suf = ''k'' then ?b * lit 1 3
            else if toLowerCase suf = ''meg'' then ?b * lit 1 6
            else if toLowerCase suf = ''g'' then ?b * lit 1 9
            else NaN)"
    unfolding parseRealWithSI_literal [OF ok suf fin] si_mult_def
    by (simp add: si_table_finite)
  have va: "parseValueAsCx (literal_text l @ suf) = cx (parseRealWithSI (literal_text l @ suf)) 0"
    if "CHR ''j'' \<notin> set suf \<and> CHR ''J'' \<notin> set suf"
    using parseValueAsCx_literal [OF ok suf] that by blast
  have pc: "parseCx (literal_text l @ suf) =
              (if suf = [] then Some (cx ?b 0)
               else if suf = ''p'' \<or> suf = ''P'' then Some (cx (?b * lit 1 (- 12)) 0)
               else if suf = ''n'' \<or> suf = ''N'' then Some (cx (?b * lit 1 (- 9)) 0)
               else if suf = ''u'' \<or> suf = ''U'' then Some (cx (?b * lit 1 (- 6)) 0)
               else if suf = ''m'' then Some (cx (?b * lit 1 (- 3)) 0)
               else if suf = ''k'' \<or> suf = ''K'' then Some (cx (?b * lit 1 3) 0)
               else if suf = ''M'' then Some (cx (?b * lit 1 6) 0)
               else None)"
    if nm: "CHR ''i'' \<notin> set suf \<and> CHR ''j'' \<notin> set suf \<and> CHR ''J'' \<notin> set suf"
  proof -
    from nm have n3: "CHR ''i'' \<notin> set suf" "CHR ''j'' \<notin> set suf" "CHR ''J'' \<notin> set suf"
      by simp_all
    note pl = parseCx_literal [OF ok suf n3 fin]
    show ?thesis
    proof (cases suf)
      case Nil
      with pl show ?thesis by (simp add: cx_def)
    next
      case (Cons c r)
      show ?thesis
        unfolding pl unfolding Cons list.case by (rule cx_letter_table)
    qed
  qed
  from va have va': "CHR ''j'' \<notin> set suf \<and> CHR ''J'' \<notin> set suf \<longrightarrow>
            parseValueAsCx (literal_text l @ suf) = cx (parseRealWithSI (literal_text l @ suf)) 0"
    by (rule impI)
  from pc have pc': "CHR ''i'' \<notin> set suf \<and> CHR ''j'' \<notin> set suf \<and> CHR ''J'' \<notin> set suf \<longrightarrow>
            parseCx (literal_text l @ suf) =
              (if suf = [] then Some (cx ?b 0)
               else if suf = ''p'' \<or> suf = ''P'' then Some (cx (?b * lit 1 (- 12)) 0)
               else if suf = ''n'' \<or> suf = ''N'' then Some (cx (?b * lit 1 (- 9)) 0)
               else if suf = ''u'' \<or> suf = ''U'' then Some (cx (?b * lit 1 (- 6)) 0)
               else if suf = ''m'' then Some (cx (?b * lit 1 (- 3)) 0)
               else if suf = ''k'' \<or> suf = ''K'' then Some (cx (?b * lit 1 3) 0)
               else if suf = ''M'' then Some (cx (?b * lit 1 6) 0)
               else None)"
    by (rule impI)
  from si va' pc' show ?thesis by (intro conjI)
qed

theorem si_suffix_scaling_witness:
  "literal_ok \<lparr>l_sign = ''-'', l_int = ''2'', l_frac = ''5'', l_exp = Some (''+'', ''3'')\<rparr> \<and>
   isFinite (Number_of (literal_decimal
      \<lparr>l_sign = ''-'', l_int = ''2'', l_frac = ''5'', l_exp = Some (''+'', ''3'')\<rparr>)) \<and>
   literal_text \<lparr>l_sign = ''-'', l_int = ''2'', l_frac = ''5'', l_exp = Some (''+'', ''3'')\<rparr> = ''-2.5e+3'' \<and>
   Number_of (literal_decimal \<lparr>l_sign = ''-'', l_int = ''2'', l_frac = ''5'', l_exp = Some (''+'', ''3'')\<rparr>)
     = Fin True 625 2 \<and>
   list_all is_alpha ''MeG'' \<and> list_all is_alpha ''K'' \<and> list_all is_alpha ''M'' \<and> list_all is_alpha ''g'' \<and>
   parseRealWithSI (''-2.5e+3'' @ ''MeG'') = Fin True 625 2 * lit 1 6 \<and>
   parseRealWithSI (''-2.5e+3'' @ ''K'') = Fin True 625 2 * lit 1 3 \<and>
   parseRealWithSI (''-2.5e+3'' @ ''M'') = Fin True 625 2 * lit 1 (- 3) \<and>
   parseValueAsCx (''-2.5e+3'' @ ''M'') = cx (Fin True 625 2 * lit 1 (- 3)) 0 \<and>
   parseCx (''-2.5e+3'' @ ''M'') = Some (cx (Fin True 625 2 * lit 1 6) 0) \<and>
   parseCx (''-2.5e+3'' @ ''K'') = Some (cx (Fin True 625 2 * lit 1 3) 0) \<and>
   parseCx (''-2.5e+3'' @ ''g'') = None"
proof -
  let ?l = "\<lparr>l_sign = ''-'', l_int = ''2'', l_frac = ''5'', l_exp = Some (''+'', ''3'')\<rparr>"
  have ok: "literal_ok ?l" by code_simp
  have v: "Number_of (literal_decimal ?l) = Fin True 625 2" by code_simp
  have fin: "isFinite (Number_of (literal_decimal ?l))" by code_simp
  have t: "literal_text ?l = ''-2.5e+3''" by code_simp
  have a: "list_all is_alpha ''MeG''" "list_all is_alpha ''K''" "list_all is_alpha ''M''"
    "list_all is_alpha ''g''" by code_simp+
  have lo: "toLowerCase ''MeG'' = ''meg''" "toLowerCase ''K'' = ''k''" "toLowerCase ''M'' = ''m''"
    by code_simp+
  note th = si_suffix_scaling [OF ok fin]
  have 1: "parseRealWithSI (''-2.5e+3'' @ ''MeG'') = Fin True 625 2 * lit 1 6"
    using th [OF a(1)] unfolding t v lo by simp
  have 2: "parseRealWithSI (''-2.5e+3'' @ ''K'') = Fin True 625 2 * lit 1 3"
    using th [OF a(2)] unfolding t v lo by simp
  have 3: "parseRealWithSI (''-2.5e+3'' @ ''M'') = Fin True 625 2 * lit 1 (- 3)"
    using th [OF a(3)] unfolding t v lo by simp
  have 4: "parseValueAsCx (''-2.5e+3'' @ ''M'') = cx (Fin True 625 2 * lit 1 (- 3)) 0"
    using th [OF a(3)] 3 unfolding t v by simp
  have 5: "parseCx (''-2.5e+3'' @ ''M'') = Some (cx (Fin True 625 2 * lit 1 6) 0)"
    using th [OF a(3)] unfolding t v by simp
  have 6: "parseCx (''-2.5e+3'' @ ''K'') = Some (cx (Fin True 625 2 * lit 1 3) 0)"
    using th [OF a(2)] unfolding t v by simp
  have 7: "parseCx (''-2.5e+3'' @ ''g'') = None"
    using th [OF a(4)] unfolding t v by simp
  from ok fin t v a 1 2 3 4 5 6 7 show ?thesis by (intro conjI)
qed

text \<open>
  The claim as stated fails on \<open>1M\<close>, which the solver's parser reads as one milli, and on
  \<open>1g\<close> and \<open>1meg\<close>, for which \<open>parseCx\<close> has no value.
\<close>

theorem uppercase_M_is_milli_and_parseCx_has_no_g:
  "parseRealWithSI ''1M'' = lit 1 (- 3) \<and> parseRealWithSI ''1M'' \<noteq> lit 1 6 \<and>
   parseValueAsCx ''1M'' = cx (lit 1 (- 3)) 0 \<and>
   parseCx ''1g'' = None \<and> parseCx ''1meg'' = None"
  by code_simp

section \<open>Union-find: the finds return, and classes only grow\<close>

lemma root_of_fix: "root_of par x r \<Longrightarrow> par ! r = r"
  by (induction rule: root_of.induct) auto

lemma root_of_unique: "root_of par x r \<Longrightarrow> root_of par x r' \<Longrightarrow> r = r'"
proof (induction arbitrary: r' rule: root_of.induct)
  case (root x)
  from root.prems root.hyps show ?case
    by (cases rule: root_of.cases) auto
next
  case (link x r)
  from link.prems link.hyps(1) have "root_of par (par ! x) r'"
    by (cases rule: root_of.cases) auto
  with link.IH show ?case by blast
qed

lemma root_of_bound:
  "root_of par x r \<Longrightarrow> \<forall>y<n. par ! y < n \<Longrightarrow> x < n \<Longrightarrow> r < n"
  by (induction rule: root_of.induct) auto

lemma root_of_rank:
  assumes "root_of (parent u) x r" and "uf_inv n u" and "x < n"
  shows "rank u ! x \<le> rank u ! r"
  using assms
proof (induction rule: root_of.induct)
  case (root x)
  show ?case by simp
next
  case (link x r)
  from link.prems link.hyps(1) have "parent u ! x < n" "rank u ! x < rank u ! (parent u ! x)"
    by (auto simp: uf_inv_def)
  with link.IH link.prems show ?case by simp
qed

text \<open>Replacing the parent of one node by its root keeps every root.\<close>

lemma root_of_compress:
  assumes xr: "root_of par x r" and ys: "root_of par y s"
  shows "root_of (par[x := r]) y s"
  using ys
proof (induction rule: root_of.induct)
  case (root y)
  show ?case
  proof (cases "y = x")
    case True
    with root xr have "r = x"
      using root_of_unique [OF xr, of x] root_of.root [of par x] by simp
    with True root show ?thesis
      by (metis list_update_id root_of.root)
  next
    case False
    with root show ?thesis by (simp add: root_of.root)
  qed
next
  case (link y s)
  show ?case
  proof (cases "y = x")
    case False
    with link show ?thesis by (simp add: root_of.link)
  next
    case True
    have ys: "root_of par x s"
      using True link.hyps by (auto intro: root_of.link)
    have sr: "s = r" using root_of_unique [OF ys xr] .
    have fx: "par ! r = r" using xr by (rule root_of_fix)
    with link.hyps(1) True have rx: "r \<noteq> x" by auto
    show ?thesis
    proof (cases "x < length par")
      case False
      then have "par[x := r] = par" by (metis list_update_beyond not_less)
      with ys True show ?thesis by simp
    next
      case xl: True
      from rx fx have "root_of (par[x := r]) r r"
        by (simp add: root_of.root)
      moreover from xl rx have "par[x := r] ! x \<noteq> x" by simp
      moreover from xl have "par[x := r] ! x = r" by simp
      ultimately show ?thesis
        using True sr by (metis root_of.link)
    qed
  qed
qed

text \<open>Linking one root below another sends the class of the first to the second.\<close>

lemma root_of_link:
  assumes ra: "par ! ra = ra" and rb: "par ! rb = rb" and ne: "ra \<noteq> rb" and len: "ra < length par"
    and ys: "root_of par y s"
  shows "root_of (par[ra := rb]) y (if s = ra then rb else s)"
  using ys
proof (induction rule: root_of.induct)
  case (root y)
  show ?case
  proof (cases "y = ra")
    case True
    from ne rb have "root_of (par[ra := rb]) rb rb"
      by (simp add: root_of.root)
    moreover from len ne have "par[ra := rb] ! ra \<noteq> ra" "par[ra := rb] ! ra = rb" by simp_all
    ultimately have "root_of (par[ra := rb]) ra rb"
      by (metis root_of.link)
    with True show ?thesis by simp
  next
    case False
    with root show ?thesis by (simp add: root_of.root)
  qed
next
  case (link y s)
  from link.hyps(1) ra have "y \<noteq> ra" by auto
  with link show ?case by (simp add: root_of.link)
qed

lemma card_higher_rank:
  assumes "x < n" "p < n" "(rk :: nat list) ! x < rk ! p"
  shows "card {y. y < n \<and> rk ! p < rk ! y} < card {y. y < n \<and> rk ! x < rk ! y}"
proof (rule psubset_card_mono)
  show "finite {y. y < n \<and> rk ! x < rk ! y}" by simp
  show "{y. y < n \<and> rk ! p < rk ! y} \<subset> {y. y < n \<and> rk ! x < rk ! y}"
    using assms by auto
qed

lemma find_fuel_spec:
  assumes "uf_inv n u" "x < n" "card {y. y < n \<and> rank u ! x < rank u ! y} < k"
  shows "\<exists>r par'. find_fuel k (parent u) x = Some (r, par') \<and> root_of (parent u) x r \<and> r < n \<and>
           uf_inv n (u\<lparr>parent := par'\<rparr>) \<and> (\<forall>y s. root_of (parent u) y s \<longrightarrow> root_of par' y s)"
  using assms
proof (induction k arbitrary: x)
  case 0
  then show ?case by simp
next
  case (Suc k)
  let ?par = "parent u" and ?rk = "rank u"
  show ?case
  proof (cases "?par ! x = x")
    case True
    have "u\<lparr>parent := ?par\<rparr> = u" by simp
    with True Suc.prems show ?thesis
      by (simp add: root_of.root)
  next
    case False
    define p where "p = ?par ! x"
    from Suc.prems(1,2) False have pn: "p < n" and rkp: "?rk ! x < ?rk ! p"
      by (auto simp: uf_inv_def p_def)
    from card_higher_rank [OF Suc.prems(2) pn rkp] Suc.prems(3)
    have "card {y. y < n \<and> ?rk ! p < ?rk ! y} < k" by simp
    from Suc.IH [OF Suc.prems(1) pn this]
    obtain r par1 where ff: "find_fuel k ?par p = Some (r, par1)" and pr: "root_of ?par p r"
      and rn: "r < n" and inv1: "uf_inv n (u\<lparr>parent := par1\<rparr>)"
      and keep: "\<forall>y s. root_of ?par y s \<longrightarrow> root_of par1 y s"
      by blast
    from inv1 have len1: "length par1 = n" by (simp add: uf_inv_def)
    from False pr have xr: "root_of ?par x r"
      unfolding p_def by (rule root_of.link)
    from root_of_rank [OF pr Suc.prems(1) pn] rkp have rkr: "?rk ! x < ?rk ! r" by simp
    then have rx: "r \<noteq> x" by auto
    from keep xr have xr1: "root_of par1 x r" by blast
    have res: "find_fuel (Suc k) ?par x = Some (r, par1[x := r])"
      using False ff len1 Suc.prems(2) by (simp add: p_def Let_def)
    have inv2: "uf_inv n (u\<lparr>parent := par1[x := r]\<rparr>)"
      unfolding uf_inv_def
    proof (intro conjI allI impI)
      show "length (parent (u\<lparr>parent := par1[x := r]\<rparr>)) = n" using len1 by simp
      show "length (rank (u\<lparr>parent := par1[x := r]\<rparr>)) = n" using inv1 by (simp add: uf_inv_def)
    next
      fix y assume "y < n"
      then show "parent (u\<lparr>parent := par1[x := r]\<rparr>) ! y < n"
        using inv1 rn len1 by (cases "y = x") (auto simp: uf_inv_def)
    next
      fix y assume "y < n" and "parent (u\<lparr>parent := par1[x := r]\<rparr>) ! y \<noteq> y"
      then show "rank (u\<lparr>parent := par1[x := r]\<rparr>) ! y
                 < rank (u\<lparr>parent := par1[x := r]\<rparr>) ! (parent (u\<lparr>parent := par1[x := r]\<rparr>) ! y)"
        using inv1 rkr len1 by (cases "y = x") (auto simp: uf_inv_def)
    qed
    have "\<forall>y s. root_of ?par y s \<longrightarrow> root_of (par1[x := r]) y s"
      using keep root_of_compress [OF xr1] by blast
    with res xr rn inv2 show ?thesis by blast
  qed
qed

lemma uf_find_spec:
  assumes "uf_inv n u" "x < n"
  shows "\<exists>r u'. uf_find u x = Some (r, u') \<and> root_of (parent u) x r \<and> r < n \<and> uf_inv n u' \<and>
           rank u' = rank u \<and> (\<forall>y s. root_of (parent u) y s \<longrightarrow> root_of (parent u') y s)"
proof -
  have "card {y. y < n \<and> rank u ! x < rank u ! y} \<le> card {y. y < n}"
    by (rule card_mono) auto
  then have "card {y. y < n \<and> rank u ! x < rank u ! y} < Suc n" by simp
  from find_fuel_spec [OF assms this]
  obtain r par' where "find_fuel (Suc n) (parent u) x = Some (r, par')" "root_of (parent u) x r" "r < n"
    "uf_inv n (u\<lparr>parent := par'\<rparr>)" "\<forall>y s. root_of (parent u) y s \<longrightarrow> root_of par' y s"
    by blast
  moreover from assms(1) have "length (parent u) = n" by (simp add: uf_inv_def)
  ultimately show ?thesis
    by (simp add: uf_find_def)
qed

lemma uf_inv_link:
  assumes inv: "uf_inv n u" and ra: "ra < n" and rb: "rb < n"
    and fa: "parent u ! ra = ra" and lt: "rank u ! ra < rank u ! rb"
  shows "uf_inv n (u\<lparr>parent := (parent u)[ra := rb]\<rparr>)"
  unfolding uf_inv_def
proof (intro conjI allI impI)
  show "length (parent (u\<lparr>parent := (parent u)[ra := rb]\<rparr>)) = n" using inv by (simp add: uf_inv_def)
  show "length (rank (u\<lparr>parent := (parent u)[ra := rb]\<rparr>)) = n" using inv by (simp add: uf_inv_def)
next
  fix y assume "y < n"
  then show "parent (u\<lparr>parent := (parent u)[ra := rb]\<rparr>) ! y < n"
    using inv rb by (cases "y = ra") (auto simp: uf_inv_def)
next
  fix y assume "y < n" and "parent (u\<lparr>parent := (parent u)[ra := rb]\<rparr>) ! y \<noteq> y"
  then show "rank (u\<lparr>parent := (parent u)[ra := rb]\<rparr>) ! y
             < rank (u\<lparr>parent := (parent u)[ra := rb]\<rparr>) ! (parent (u\<lparr>parent := (parent u)[ra := rb]\<rparr>) ! y)"
    using inv lt ra by (cases "y = ra") (auto simp: uf_inv_def)
qed

lemma uf_inv_link_tie:
  assumes inv: "uf_inv n u" and ra: "ra < n" and rb: "rb < n"
    and fa: "parent u ! ra = ra" and fb: "parent u ! rb = rb" and eq: "rank u ! rb = rank u ! ra"
  shows "uf_inv n (u\<lparr>parent := (parent u)[rb := ra], rank := (rank u)[ra := Suc (rank u ! ra)]\<rparr>)"
  unfolding uf_inv_def
proof (intro conjI allI impI)
  let ?u = "u\<lparr>parent := (parent u)[rb := ra], rank := (rank u)[ra := Suc (rank u ! ra)]\<rparr>"
  show "length (parent ?u) = n" using inv by (simp add: uf_inv_def)
  show "length (rank ?u) = n" using inv by (simp add: uf_inv_def)
  fix y assume y: "y < n"
  then show "parent ?u ! y < n"
    using inv ra by (cases "y = rb") (auto simp: uf_inv_def)
  assume ne: "parent ?u ! y \<noteq> y"
  have lens: "length (parent u) = n" "length (rank u) = n" using inv by (simp_all add: uf_inv_def)
  show "rank ?u ! y < rank ?u ! (parent ?u ! y)"
  proof (cases "y = rb")
    case True
    with ne lens rb have "ra \<noteq> rb" by auto
    with True lens ra rb eq show ?thesis by simp
  next
    case False
    with ne lens y have pne: "parent u ! y \<noteq> y" by simp
    with fa have yra: "y \<noteq> ra" by auto
    from inv y pne have lt: "rank u ! y < rank u ! (parent u ! y)" and pn: "parent u ! y < n"
      by (auto simp: uf_inv_def)
    show ?thesis
      using False yra lt pn lens y by (cases "parent u ! y = ra") auto
  qed
qed

lemma same_class_link:
  assumes ra: "parent u ! ra = ra" and rb: "parent u ! rb = rb" and ne: "ra \<noteq> rb"
    and len: "ra < length (parent u)" and par: "parent u' = (parent u)[ra := rb]"
    and sc: "same_class u y z"
  shows "same_class u' y z"
proof -
  from sc obtain s where ys: "root_of (parent u) y s" and zs: "root_of (parent u) z s"
    by (auto simp: same_class_def)
  have "root_of (parent u') y (if s = ra then rb else s)"
    unfolding par using ys by (rule root_of_link [OF ra rb ne len])
  moreover have "root_of (parent u') z (if s = ra then rb else s)"
    unfolding par using zs by (rule root_of_link [OF ra rb ne len])
  ultimately show ?thesis unfolding same_class_def by blast
qed

lemma uf_union_spec:
  assumes inv: "uf_inv n u" and a: "a < n" and b: "b < n"
  shows "\<exists>u'. uf_union u a b = Some u' \<and> uf_inv n u' \<and> same_class u' a b \<and>
           (\<forall>y z. same_class u y z \<longrightarrow> same_class u' y z)"
proof -
  from uf_find_spec [OF inv a]
  obtain ra u1 where f1: "uf_find u a = Some (ra, u1)" and ar: "root_of (parent u) a ra" and ran: "ra < n"
    and inv1: "uf_inv n u1" and keep1: "\<forall>y s. root_of (parent u) y s \<longrightarrow> root_of (parent u1) y s"
    by blast
  from uf_find_spec [OF inv1 b]
  obtain rb u2 where f2: "uf_find u1 b = Some (rb, u2)" and br: "root_of (parent u1) b rb" and rbn: "rb < n"
    and inv2: "uf_inv n u2" and keep2: "\<forall>y s. root_of (parent u1) y s \<longrightarrow> root_of (parent u2) y s"
    by blast
  from ar keep1 keep2 have ar2: "root_of (parent u2) a ra" by blast
  from br keep2 have br2: "root_of (parent u2) b rb" by blast
  have fa: "parent u2 ! ra = ra" using ar2 by (rule root_of_fix)
  have fb: "parent u2 ! rb = rb" using br2 by (rule root_of_fix)
  have len2: "length (parent u2) = n" using inv2 by (simp add: uf_inv_def)
  have grow2: "\<forall>y z. same_class u y z \<longrightarrow> same_class u2 y z"
    using keep1 keep2 unfolding same_class_def by blast
  define u' where "u' = (if ra = rb then u2
                   else if rank u2 ! ra < rank u2 ! rb then u2\<lparr>parent := (parent u2)[ra := rb]\<rparr>
                   else if rank u2 ! rb < rank u2 ! ra then u2\<lparr>parent := (parent u2)[rb := ra]\<rparr>
                   else u2\<lparr>parent := (parent u2)[rb := ra],
                           rank := (rank u2)[ra := Suc (rank u2 ! ra)]\<rparr>)"
  have res: "uf_union u a b = Some u'"
    using f1 f2 by (simp add: uf_union_def u'_def)
  have ab2: "same_class u2 a a" "same_class u2 b b"
    using ar2 br2 unfolding same_class_def by blast+
  consider (same) "ra = rb" | (lt) "ra \<noteq> rb" "rank u2 ! ra < rank u2 ! rb"
    | (gt) "ra \<noteq> rb" "rank u2 ! rb < rank u2 ! ra" | (tie) "ra \<noteq> rb" "rank u2 ! rb = rank u2 ! ra"
    by linarith
  then have "uf_inv n u' \<and> same_class u' a b \<and> (\<forall>y z. same_class u2 y z \<longrightarrow> same_class u' y z)"
  proof cases
    case same
    then have "u' = u2" by (simp add: u'_def)
    with inv2 ar2 br2 same show ?thesis by (auto simp: same_class_def)
  next
    case lt
    then have eq: "u' = u2\<lparr>parent := (parent u2)[ra := rb]\<rparr>" by (simp add: u'_def)
    have par: "parent u' = (parent u2)[ra := rb]" by (simp add: eq)
    have "uf_inv n u'" unfolding eq by (rule uf_inv_link [OF inv2 ran rbn fa lt(2)])
    moreover have "root_of (parent u') a rb" "root_of (parent u') b rb"
      using root_of_link [OF fa fb lt(1) _ ar2] root_of_link [OF fa fb lt(1) _ br2] lt(1) ran len2
      unfolding par by auto
    then have "same_class u' a b" unfolding same_class_def by blast
    moreover have "\<forall>y z. same_class u2 y z \<longrightarrow> same_class u' y z"
      using same_class_link [OF fa fb lt(1) _ par] ran len2 by auto
    ultimately show ?thesis by blast
  next
    case gt
    then have eq: "u' = u2\<lparr>parent := (parent u2)[rb := ra]\<rparr>" by (auto simp add: u'_def)
    have par: "parent u' = (parent u2)[rb := ra]" by (simp add: eq)
    have ne: "rb \<noteq> ra" using gt(1) by simp
    have "uf_inv n u'" unfolding eq by (rule uf_inv_link [OF inv2 rbn ran fb gt(2)])
    moreover have "root_of (parent u') a ra" "root_of (parent u') b ra"
      using root_of_link [OF fb fa ne _ ar2] root_of_link [OF fb fa ne _ br2] ne rbn len2
      unfolding par by auto
    then have "same_class u' a b" unfolding same_class_def by blast
    moreover have "\<forall>y z. same_class u2 y z \<longrightarrow> same_class u' y z"
      using same_class_link [OF fb fa ne _ par] rbn len2 by auto
    ultimately show ?thesis by blast
  next
    case tie
    then have eq: "u' = u2\<lparr>parent := (parent u2)[rb := ra],
                           rank := (rank u2)[ra := Suc (rank u2 ! ra)]\<rparr>" by (auto simp add: u'_def)
    have par: "parent u' = (parent u2)[rb := ra]" by (simp add: eq)
    have ne: "rb \<noteq> ra" using tie(1) by simp
    have "uf_inv n u'" unfolding eq by (rule uf_inv_link_tie [OF inv2 ran rbn fa fb tie(2)])
    moreover have "root_of (parent u') a ra" "root_of (parent u') b ra"
      using root_of_link [OF fb fa ne _ ar2] root_of_link [OF fb fa ne _ br2] ne rbn len2
      unfolding par by auto
    then have "same_class u' a b" unfolding same_class_def by blast
    moreover have "\<forall>y z. same_class u2 y z \<longrightarrow> same_class u' y z"
      using same_class_link [OF fb fa ne _ par] rbn len2 by auto
    ultimately show ?thesis by blast
  qed
  with res grow2 show ?thesis by blast
qed

lemma UnionFind_inv: "uf_inv n (UnionFind n)"
  by (simp add: uf_inv_def UnionFind_def)


section \<open>Loops that may fail, and tables in insertion order\<close>

lemma ofold_each:
  assumes "Inv s"
    and step: "\<And>x s. x \<in> set xs \<Longrightarrow> Inv s \<Longrightarrow> \<exists>s'. f x s = Some s' \<and> Inv s' \<and> G s s' \<and> Q x s'"
    and refl: "\<And>s. G s s"
    and trans: "\<And>s s' s''. G s s' \<Longrightarrow> G s' s'' \<Longrightarrow> G s s''"
    and mono: "\<And>x s s'. Q x s \<Longrightarrow> G s s' \<Longrightarrow> Q x s'"
  shows "\<exists>s'. ofold f xs s = Some s' \<and> Inv s' \<and> G s s' \<and> (\<forall>x\<in>set xs. Q x s')"
  using assms(1,2)
proof (induction xs arbitrary: s)
  case Nil
  then show ?case by (simp add: refl)
next
  case (Cons x xs)
  from Cons.prems(2) [of x s] Cons.prems(1)
  obtain s1 where s1: "f x s = Some s1" "Inv s1" "G s s1" "Q x s1" by auto
  have "\<exists>s'. ofold f xs s1 = Some s' \<and> Inv s' \<and> G s1 s' \<and> (\<forall>x\<in>set xs. Q x s')"
    by (rule Cons.IH [OF s1(2)]) (use Cons.prems(2) in auto)
  then obtain s' where s': "ofold f xs s1 = Some s'" "Inv s'" "G s1 s'" "\<forall>x\<in>set xs. Q x s'" by blast
  from s1 s' have "ofold f (x # xs) s = Some s'" by simp
  moreover from s1(3) s'(3) have "G s s'" by (rule trans)
  moreover from s1(4) s'(3) have "Q x s'" by (rule mono)
  ultimately show ?case using s' by auto
qed

lemma map_of_map_set: "map_of (map_set k v m) = (map_of m)(k \<mapsto> v)"
  by (induction m) (auto simp: fun_eq_iff)

lemma keys_map_set:
  "map fst (map_set k v m) = (if k \<in> fst ` set m then map fst m else map fst m @ [k])"
  by (induction m) (auto simp: image_iff)

lemma distinct_map_set: "distinct (map fst m) \<Longrightarrow> distinct (map fst (map_set k v m))"
  by (simp add: keys_map_set)

lemma set_map_set_new: "k \<notin> fst ` set m \<Longrightarrow> map_set k v m = m @ [(k, v)]"
  by (induction m) auto

lemma values_map_set: "snd ` set (map_set k v m) \<subseteq> insert v (snd ` set m)"
  by (induction m) auto

lemma value_in_map_set: "v \<in> snd ` set (map_set k v m)"
  by (induction m) (auto simp: image_iff)

lemma map_of_map_push:
  "map_of (map_push k i m) = (map_of m)(k \<mapsto> (case map_of m k of Some arr \<Rightarrow> arr | None \<Rightarrow> []) @ [i])"
  by (simp add: map_push_def map_of_map_set)

lemma distinct_map_push: "distinct (map fst m) \<Longrightarrow> distinct (map fst (map_push k i m))"
  by (simp add: map_push_def distinct_map_set)

lemma map_of_values: "distinct (map fst m) \<Longrightarrow> (k, v) \<in> set m \<longleftrightarrow> map_of m k = Some v"
  by (auto dest: map_of_SomeD)


lemma members_map_set: "members (map_set k v m) \<subseteq> set v \<union> members m"
  by (induction m) (auto simp: members_def)

lemma members_lookup: "map_of m k = Some arr \<Longrightarrow> set arr \<subseteq> members m"
proof
  fix x assume "map_of m k = Some arr" and x: "x \<in> set arr"
  then have "(k, arr) \<in> set m" by (simp add: map_of_SomeD)
  with x show "x \<in> members m" unfolding members_def by force
qed

lemma members_map_push: "members (map_push k i m) \<subseteq> insert i (members m)"
proof -
  have "set (case map_of m k of Some arr \<Rightarrow> arr | None \<Rightarrow> []) \<subseteq> members m"
    using members_lookup [of m k] by (cases "map_of m k") auto
  with members_map_set [of k "(case map_of m k of Some arr \<Rightarrow> arr | None \<Rightarrow> []) @ [i]" m]
  show ?thesis by (auto simp: map_push_def)
qed


section \<open>The clustering returns and unites what it compares\<close>

lemma same_class_sym: "same_class u x y \<Longrightarrow> same_class u y x"
  by (auto simp: same_class_def)

lemma same_class_trans: "same_class u x y \<Longrightarrow> same_class u y z \<Longrightarrow> same_class u x z"
  unfolding same_class_def using root_of_unique by blast

lemma same_class_refl: "uf_inv n u \<Longrightarrow> x < n \<Longrightarrow> same_class u x x"
  using uf_find_spec [of n u x] unfolding same_class_def by blast

lemma grows_refl: "grows u u"
  by (simp add: grows_def)

lemma grows_trans: "grows u u' \<Longrightarrow> grows u' u'' \<Longrightarrow> grows u u''"
  by (simp add: grows_def)

lemma uf_union_grows:
  assumes "uf_inv n u" "a < n" "b < n"
  shows "\<exists>u'. uf_union u a b = Some u' \<and> uf_inv n u' \<and> grows u u' \<and> same_class u' a b"
  using uf_union_spec [OF assms] unfolding grows_def by blast

lemma try_union_spec:
  assumes "uf_inv n u" "i < n" "j < n"
  shows "\<exists>u'. try_union pts tol2 i j u = Some u' \<and> uf_inv n u' \<and> grows u u' \<and>
           (i < j \<and> dist2 (pr_p (pts ! i)) (pr_p (pts ! j)) \<le> tol2 \<longrightarrow> same_class u' i j)"
proof (cases "i < j \<and> dist2 (pr_p (pts ! i)) (pr_p (pts ! j)) \<le> tol2")
  case True
  then have "try_union pts tol2 i j u = uf_union u i j" by (simp add: try_union_def)
  with uf_union_grows [OF assms] show ?thesis by auto
next
  case False
  then have "try_union pts tol2 i j u = Some u" by (auto simp: try_union_def)
  with assms(1) False show ?thesis by (auto simp: grows_refl)
qed

lemma members_Nil: "members [] = {}"
  by (simp add: members_def)

lemma fold_push_members:
  "members (fold (\<lambda>i m. if c i then map_push (kf i) i m else m) xs m0) \<subseteq> set xs \<union> members m0"
proof (induction xs arbitrary: m0)
  case Nil
  show ?case by simp
next
  case (Cons x xs)
  show ?case
    using Cons.IH [of "if c x then map_push (kf x) x m0 else m0"] members_map_push [of "kf x" x m0]
    by (auto split: if_splits)
qed

lemma fold_push_keeps:
  assumes "map_of m0 k = Some arr"
  shows "\<exists>arr'. map_of (fold (\<lambda>i m. if c i then map_push (kf i) i m else m) xs m0) k = Some arr' \<and>
           set arr \<subseteq> set arr'"
  using assms
proof (induction xs arbitrary: m0 arr)
  case Nil
  then show ?case by simp
next
  case (Cons x xs)
  let ?m1 = "if c x then map_push (kf x) x m0 else m0"
  have "\<exists>arr1. map_of ?m1 k = Some arr1 \<and> set arr \<subseteq> set arr1"
    using Cons.prems by (cases "c x"; cases "k = kf x") (auto simp: map_of_map_push)
  then obtain arr1 where a1: "map_of ?m1 k = Some arr1" "set arr \<subseteq> set arr1" by blast
  from Cons.IH [OF a1(1)] a1(2) show ?case by auto
qed

lemma fold_push_lookup:
  assumes "i \<in> set xs" "c i"
  shows "\<exists>arr. map_of (fold (\<lambda>i m. if c i then map_push (kf i) i m else m) xs m0) (kf i) = Some arr \<and>
           i \<in> set arr"
  using assms
proof (induction xs arbitrary: m0)
  case Nil
  then show ?case by simp
next
  case (Cons x xs)
  let ?m1 = "if c x then map_push (kf x) x m0 else m0"
  show ?case
  proof (cases "x = i")
    case True
    with Cons.prems have "\<exists>arr1. map_of ?m1 (kf i) = Some arr1 \<and> i \<in> set arr1"
      by (simp add: map_of_map_push)
    then obtain arr1 where "map_of ?m1 (kf i) = Some arr1" "i \<in> set arr1" by blast
    with fold_push_keeps [of ?m1 "kf i" arr1 c kf xs] show ?thesis by auto
  next
    case False
    with Cons.prems have "i \<in> set xs" by simp
    from Cons.IH [OF this Cons.prems(2), of ?m1] show ?thesis by simp
  qed
qed

lemma make_buckets_fold:
  "make_buckets cell pts =
     fold (\<lambda>i m. if True then map_push (case cell_of cell (pr_p (pts ! i)) of (gx, gy) \<Rightarrow> cell_key gx gy) i m else m)
          [0..<length pts] []"
  unfolding make_buckets_def
  by (rule arg_cong [where f = "\<lambda>f. fold f [0..<length pts] []"]) (auto simp: fun_eq_iff split: prod.splits)

lemma make_buckets_members: "members (make_buckets cell pts) \<subseteq> {0..<length pts}"
  unfolding make_buckets_fold
  using fold_push_members [of "\<lambda>_. True"
      "\<lambda>i. case cell_of cell (pr_p (pts ! i)) of (gx, gy) \<Rightarrow> cell_key gx gy" "[0..<length pts]" "[]"]
  by (simp add: members_Nil)

lemma make_buckets_lookup:
  assumes "i < length pts" "cell_of cell (pr_p (pts ! i)) = (gx, gy)"
  shows "\<exists>arr. map_of (make_buckets cell pts) (cell_key gx gy) = Some arr \<and> i \<in> set arr"
proof -
  from assms(1) have "i \<in> set [0..<length pts]" by simp
  from fold_push_lookup [OF this, of "\<lambda>_. True"
      "\<lambda>i. case cell_of cell (pr_p (pts ! i)) of (gx, gy) \<Rightarrow> cell_key gx gy" "[]"] assms(2)
  show ?thesis unfolding make_buckets_fold by simp
qed

lemma neighbors_members: "set (neighbors buckets gx gy) \<subseteq> members buckets"
proof -
  have "set (case map_of buckets k of Some arr \<Rightarrow> arr | None \<Rightarrow> []) \<subseteq> members buckets" for k
    using members_lookup [of buckets k] by (cases "map_of buckets k") auto
  then show ?thesis unfolding neighbors_def by (auto simp: subset_iff)
qed

lemma neighbors_adjacent:
  assumes j: "j < length pts" and adj: "adjacent_cells cell p (pr_p (pts ! j))" and c: "cell_of cell p = (gx, gy)"
  shows "j \<in> set (neighbors (make_buckets cell pts) gx gy)"
proof -
  obtain hx hy where h: "cell_of cell (pr_p (pts ! j)) = (hx, hy)" by (cases "cell_of cell (pr_p (pts ! j))")
  from make_buckets_lookup [OF j h] obtain arr where
    arr: "map_of (make_buckets cell pts) (cell_key hx hy) = Some arr" "j \<in> set arr" by blast
  from adj c h obtain dx dy where d: "dx \<in> {- 1, 0, 1}" "dy \<in> {- 1, 0, 1}"
    "cell_key (gx + dx) (gy + dy) = cell_key hx hy"
    by (auto simp: adjacent_cells_def)
  with arr show ?thesis unfolding neighbors_def by auto
qed

lemma scan_point_spec:
  assumes inv: "uf_inv n u" and i: "i < n" and mem: "members buckets \<subseteq> {0..<n}"
    and c: "cell_of cell (pr_p (pts ! i)) = (gx, gy)"
  shows "\<exists>u'. scan_point pts cell tol2 buckets i u = Some u' \<and> uf_inv n u' \<and> grows u u' \<and>
           (\<forall>j\<in>set (neighbors buckets gx gy).
              i < j \<and> dist2 (pr_p (pts ! i)) (pr_p (pts ! j)) \<le> tol2 \<longrightarrow> same_class u' i j)"
proof -
  have "\<exists>u'. ofold (try_union pts tol2 i) (neighbors buckets gx gy) u = Some u' \<and> uf_inv n u' \<and> grows u u' \<and>
           (\<forall>j\<in>set (neighbors buckets gx gy).
              i < j \<and> dist2 (pr_p (pts ! i)) (pr_p (pts ! j)) \<le> tol2 \<longrightarrow> same_class u' i j)"
  proof (rule ofold_each [where Inv = "uf_inv n" and G = grows])
    show "uf_inv n u" by (rule inv)
  next
    fix j s assume "j \<in> set (neighbors buckets gx gy)" and s: "uf_inv n s"
    with neighbors_members [of buckets gx gy] mem have "j < n" by auto
    from try_union_spec [OF s i this]
    show "\<exists>s'. try_union pts tol2 i j s = Some s' \<and> uf_inv n s' \<and> grows s s' \<and>
               (i < j \<and> dist2 (pr_p (pts ! i)) (pr_p (pts ! j)) \<le> tol2 \<longrightarrow> same_class s' i j)" .
  qed (auto simp: grows_refl grows_def)
  with c show ?thesis by (simp add: scan_point_def)
qed

lemma unify_close_spec:
  "\<exists>u. unify_close g pts = Some u \<and> uf_inv (length pts) u \<and>
     (\<forall>i<length pts. \<forall>j<length pts.
        i < j \<and> adjacent_cells (cell_size g) (pr_p (pts ! i)) (pr_p (pts ! j)) \<and>
        dist2 (pr_p (pts ! i)) (pr_p (pts ! j)) \<le> tolerance g * tolerance g \<longrightarrow> same_class u i j)"
proof -
  let ?n = "length pts" and ?cell = "cell_size g" and ?tol2 = "tolerance g * tolerance g"
  let ?Q = "\<lambda>i u. \<forall>j<?n. i < j \<and> adjacent_cells ?cell (pr_p (pts ! i)) (pr_p (pts ! j)) \<and>
        dist2 (pr_p (pts ! i)) (pr_p (pts ! j)) \<le> ?tol2 \<longrightarrow> same_class u i j"
  have "\<exists>u. ofold (scan_point pts ?cell ?tol2 (make_buckets ?cell pts)) [0..<?n] (UnionFind ?n) = Some u \<and>
          uf_inv ?n u \<and> grows (UnionFind ?n) u \<and> (\<forall>i\<in>set [0..<?n]. ?Q i u)"
  proof (rule ofold_each [where Inv = "uf_inv ?n" and G = grows])
    show "uf_inv ?n (UnionFind ?n)" by (rule UnionFind_inv)
  next
    fix i s assume "i \<in> set [0..<?n]" and s: "uf_inv ?n s"
    then have i: "i < ?n" by simp
    obtain gx gy where c: "cell_of ?cell (pr_p (pts ! i)) = (gx, gy)"
      by (cases "cell_of ?cell (pr_p (pts ! i))")
    from scan_point_spec [OF s i make_buckets_members c, of ?tol2]
    obtain s' where s': "scan_point pts ?cell ?tol2 (make_buckets ?cell pts) i s = Some s'"
      "uf_inv ?n s'" "grows s s'"
      "\<forall>j\<in>set (neighbors (make_buckets ?cell pts) gx gy).
              i < j \<and> dist2 (pr_p (pts ! i)) (pr_p (pts ! j)) \<le> ?tol2 \<longrightarrow> same_class s' i j"
      by blast
    have "?Q i s'"
      using s'(4) neighbors_adjacent [OF _ _ c] by blast
    with s' show "\<exists>s'. scan_point pts ?cell ?tol2 (make_buckets ?cell pts) i s = Some s' \<and>
        uf_inv ?n s' \<and> grows s s' \<and> ?Q i s'" by blast
  qed (auto simp: grows_refl grows_def)
  then show ?thesis
    by (auto simp: unify_close_def Let_def)
qed

lemma union_wire_spec:
  assumes inv: "uf_inv n u" and arr: "set arr \<subseteq> {0..<n}"
  shows "\<exists>u'. union_wire arr u = Some u' \<and> uf_inv n u' \<and> grows u u' \<and>
           (\<forall>a\<in>set arr. \<forall>b\<in>set arr. same_class u' a b)"
proof (cases arr)
  case Nil
  with inv show ?thesis by (simp add: union_wire_def grows_refl)
next
  case (Cons a0 rest)
  with arr have a0: "a0 < n" and rest: "set rest \<subseteq> {0..<n}" by auto
  have "\<exists>u'. ofold (\<lambda>k u'. uf_union u' a0 k) rest u = Some u' \<and> uf_inv n u' \<and> grows u u' \<and>
          (\<forall>k\<in>set rest. same_class u' a0 k)"
  proof (rule ofold_each [where Inv = "uf_inv n" and G = grows])
    show "uf_inv n u" by (rule inv)
  next
    fix k s assume "k \<in> set rest" and s: "uf_inv n s"
    with rest have "k < n" by auto
    from uf_union_grows [OF s a0 this]
    show "\<exists>s'. uf_union s a0 k = Some s' \<and> uf_inv n s' \<and> grows s s' \<and> same_class s' a0 k" .
  qed (auto simp: grows_refl grows_def)
  then obtain u' where u': "union_wire arr u = Some u'" "uf_inv n u'" "grows u u'"
    "\<forall>k\<in>set rest. same_class u' a0 k"
    by (auto simp: union_wire_def Cons)
  from same_class_refl [OF u'(2) a0] u'(4) have all: "\<forall>k\<in>set arr. same_class u' a0 k"
    by (simp add: Cons)
  have "\<forall>a\<in>set arr. \<forall>b\<in>set arr. same_class u' a b"
    using all same_class_sym same_class_trans by blast
  with u' show ?thesis by blast
qed

lemma wirePointIndices_fold:
  "wirePointIndices pts =
     fold (\<lambda>i m. if pr_kind (pts ! i) = WirePt \<and> pr_ownerId (pts ! i) \<noteq> []
                  then map_push (pr_ownerId (pts ! i)) i m else m) [0..<length pts] []"
  by (simp add: wirePointIndices_def)

lemma wirePointIndices_members: "members (wirePointIndices pts) \<subseteq> {0..<length pts}"
  unfolding wirePointIndices_fold
  using fold_push_members [of "\<lambda>i. pr_kind (pts ! i) = WirePt \<and> pr_ownerId (pts ! i) \<noteq> []"
      "\<lambda>i. pr_ownerId (pts ! i)" "[0..<length pts]" "[]"]
  by (simp add: members_Nil)

lemma wirePointIndices_distinct: "distinct (map fst (wirePointIndices pts))"
proof -
  have "distinct (map fst m0) \<Longrightarrow>
        distinct (map fst (fold (\<lambda>i m. if c i then map_push (kf i) i m else m) xs m0))"
    for c :: "nat \<Rightarrow> bool" and kf :: "nat \<Rightarrow> string" and xs m0
    by (induction xs arbitrary: m0) (auto simp: distinct_map_push)
  then show ?thesis unfolding wirePointIndices_fold by simp
qed

lemma wirePointIndices_lookup:
  assumes "i < length pts" "pr_kind (pts ! i) = WirePt" "pr_ownerId (pts ! i) \<noteq> []"
  shows "\<exists>arr. (pr_ownerId (pts ! i), arr) \<in> set (wirePointIndices pts) \<and> i \<in> set arr"
proof -
  from assms(1) have "i \<in> set [0..<length pts]" by simp
  from fold_push_lookup [OF this, of "\<lambda>i. pr_kind (pts ! i) = WirePt \<and> pr_ownerId (pts ! i) \<noteq> []"
      "\<lambda>i. pr_ownerId (pts ! i)" "[]"] assms(2,3)
  show ?thesis unfolding wirePointIndices_fold by (auto dest: map_of_SomeD)
qed

text \<open>
  The clustering returns, and unites every pair of points that the scan compares and finds
  close, and all the points of every wire.
\<close>

lemma cluster_spec:
  "\<exists>u. cluster doc = Some u \<and> uf_inv (length (collect_points doc)) u \<and>
     (\<forall>i<length (collect_points doc). \<forall>j<length (collect_points doc).
        i < j \<and>
        adjacent_cells (cell_size (doc_grid doc)) (pr_p (collect_points doc ! i)) (pr_p (collect_points doc ! j)) \<and>
        dist2 (pr_p (collect_points doc ! i)) (pr_p (collect_points doc ! j))
          \<le> tolerance (doc_grid doc) * tolerance (doc_grid doc) \<longrightarrow> same_class u i j) \<and>
     (\<forall>i<length (collect_points doc). \<forall>j<length (collect_points doc).
        pr_kind (collect_points doc ! i) = WirePt \<and> pr_kind (collect_points doc ! j) = WirePt \<and>
        pr_ownerId (collect_points doc ! i) \<noteq> [] \<and>
        pr_ownerId (collect_points doc ! i) = pr_ownerId (collect_points doc ! j) \<longrightarrow> same_class u i j)"
proof -
  let ?pts = "collect_points doc"
  let ?n = "length ?pts"
  from unify_close_spec [of "doc_grid doc" ?pts]
  obtain u0 where u0: "unify_close (doc_grid doc) ?pts = Some u0" "uf_inv ?n u0"
    and close: "\<forall>i<?n. \<forall>j<?n.
        i < j \<and> adjacent_cells (cell_size (doc_grid doc)) (pr_p (?pts ! i)) (pr_p (?pts ! j)) \<and>
        dist2 (pr_p (?pts ! i)) (pr_p (?pts ! j)) \<le> tolerance (doc_grid doc) * tolerance (doc_grid doc)
        \<longrightarrow> same_class u0 i j"
    by blast
  have "\<exists>u. ofold union_wire (map snd (wirePointIndices ?pts)) u0 = Some u \<and> uf_inv ?n u \<and> grows u0 u \<and>
          (\<forall>arr\<in>set (map snd (wirePointIndices ?pts)). \<forall>a\<in>set arr. \<forall>b\<in>set arr. same_class u a b)"
  proof (rule ofold_each [where Inv = "uf_inv ?n" and G = grows])
    show "uf_inv ?n u0" by (rule u0(2))
  next
    fix arr s assume a: "arr \<in> set (map snd (wirePointIndices ?pts))" and s: "uf_inv ?n s"
    from a wirePointIndices_members [of ?pts] have "set arr \<subseteq> {0..<?n}"
      unfolding members_def by auto
    from union_wire_spec [OF s this]
    show "\<exists>s'. union_wire arr s = Some s' \<and> uf_inv ?n s' \<and> grows s s' \<and>
            (\<forall>a\<in>set arr. \<forall>b\<in>set arr. same_class s' a b)" .
  qed (auto simp: grows_refl grows_def)
  then obtain u where u: "ofold union_wire (map snd (wirePointIndices ?pts)) u0 = Some u" "uf_inv ?n u"
    "grows u0 u" and wires: "\<forall>arr\<in>set (map snd (wirePointIndices ?pts)). \<forall>a\<in>set arr. \<forall>b\<in>set arr. same_class u a b"
    by blast
  have res: "cluster doc = Some u" using u0(1) u(1) by (simp add: cluster_def)
  have w: "same_class u i j"
    if "i < ?n" "j < ?n" "pr_kind (?pts ! i) = WirePt" "pr_kind (?pts ! j) = WirePt"
      "pr_ownerId (?pts ! i) \<noteq> []" "pr_ownerId (?pts ! i) = pr_ownerId (?pts ! j)" for i j
  proof -
    from wirePointIndices_lookup [OF that(1,3,5)] obtain arr where
      arr: "(pr_ownerId (?pts ! i), arr) \<in> set (wirePointIndices ?pts)" "i \<in> set arr" by blast
    from wirePointIndices_lookup [OF that(2,4)] that(5,6) obtain arr' where
      arr': "(pr_ownerId (?pts ! i), arr') \<in> set (wirePointIndices ?pts)" "j \<in> set arr'" by auto
    from arr(1) arr'(1) wirePointIndices_distinct [of ?pts] have "arr = arr'"
      by (meson eq_key_imp_eq_value)
    with arr arr' wires show ?thesis by force
  qed
  from res u(2) close u(3) w show ?thesis
    unfolding grows_def by (intro exI [of _ u] conjI) blast+
qed


section \<open>Groups and node names\<close>


lemma root_of_exists: "uf_inv n u \<Longrightarrow> x < n \<Longrightarrow> \<exists>r. root_of (parent u) x r"
  using uf_find_spec [of n u x] by blast

text \<open>
  \<open>groups\<close> returns; every index is listed under its root, every listed index has the key
  of its list as root, and the keys are distinct.
\<close>

lemma groups_loop_spec:
  assumes "uf_inv n u" "set xs \<subseteq> {0..<n}" "distinct (map fst m)"
    and "\<forall>k arr i. map_of m k = Some arr \<and> i \<in> set arr \<longrightarrow> root_of (parent u) i k"
  shows "\<exists>m' u'. groups_loop xs u m = Some (m', u') \<and> uf_inv n u' \<and>
     (\<forall>y s. root_of (parent u) y s \<longrightarrow> root_of (parent u') y s) \<and> distinct (map fst m') \<and>
     (\<forall>k arr. map_of m k = Some arr \<longrightarrow> (\<exists>arr'. map_of m' k = Some arr' \<and> set arr \<subseteq> set arr')) \<and>
     (\<forall>i\<in>set xs. \<forall>r. root_of (parent u) i r \<longrightarrow> (\<exists>arr. map_of m' r = Some arr \<and> i \<in> set arr)) \<and>
     (\<forall>k arr i. map_of m' k = Some arr \<and> i \<in> set arr \<longrightarrow> root_of (parent u') i k)"
  using assms
proof (induction xs arbitrary: u m)
  case Nil
  then show ?case by simp
next
  case (Cons x xs)
  from Cons.prems(2) have x: "x < n" and xs: "set xs \<subseteq> {0..<n}" by auto
  from uf_find_spec [OF Cons.prems(1) x]
  obtain r u1 where f: "uf_find u x = Some (r, u1)" and xr: "root_of (parent u) x r"
    and inv1: "uf_inv n u1" and keep: "\<forall>y s. root_of (parent u) y s \<longrightarrow> root_of (parent u1) y s"
    by blast
  let ?m1 = "map_push r x m"
  have d1: "distinct (map fst ?m1)" using Cons.prems(3) by (rule distinct_map_push)
  have r1: "\<forall>k arr i. map_of ?m1 k = Some arr \<and> i \<in> set arr \<longrightarrow> root_of (parent u1) i k"
  proof (intro allI impI)
    fix k arr i assume a: "map_of ?m1 k = Some arr \<and> i \<in> set arr"
    show "root_of (parent u1) i k"
    proof (cases "k = r")
      case True
      with a have "i = x \<or> (\<exists>arr0. map_of m r = Some arr0 \<and> i \<in> set arr0)"
        by (cases "map_of m r") (auto simp: map_of_map_push)
      with True xr Cons.prems(4) keep show ?thesis by blast
    next
      case False
      with a have "map_of m k = Some arr \<and> i \<in> set arr" by (simp add: map_of_map_push)
      with Cons.prems(4) keep show ?thesis by blast
    qed
  qed
  from Cons.IH [OF inv1 xs d1 r1]
  obtain m' u' where res: "groups_loop xs u1 ?m1 = Some (m', u')" and inv': "uf_inv n u'"
    and keep': "\<forall>y s. root_of (parent u1) y s \<longrightarrow> root_of (parent u') y s"
    and d': "distinct (map fst m')"
    and mono': "\<forall>k arr. map_of ?m1 k = Some arr \<longrightarrow> (\<exists>arr'. map_of m' k = Some arr' \<and> set arr \<subseteq> set arr')"
    and each': "\<forall>i\<in>set xs. \<forall>r. root_of (parent u1) i r \<longrightarrow> (\<exists>arr. map_of m' r = Some arr \<and> i \<in> set arr)"
    and roots': "\<forall>k arr i. map_of m' k = Some arr \<and> i \<in> set arr \<longrightarrow> root_of (parent u') i k"
    by blast
  have res0: "groups_loop (x # xs) u m = Some (m', u')" using f res by simp
  have mono: "\<forall>k arr. map_of m k = Some arr \<longrightarrow> (\<exists>arr'. map_of m' k = Some arr' \<and> set arr \<subseteq> set arr')"
  proof (intro allI impI)
    fix k arr assume a: "map_of m k = Some arr"
    then have "\<exists>arr1. map_of ?m1 k = Some arr1 \<and> set arr \<subseteq> set arr1"
      by (cases "k = r") (auto simp: map_of_map_push)
    with mono' show "\<exists>arr'. map_of m' k = Some arr' \<and> set arr \<subseteq> set arr'" by (meson subset_trans)
  qed
  have each: "\<forall>i\<in>set (x # xs). \<forall>s. root_of (parent u) i s \<longrightarrow> (\<exists>arr. map_of m' s = Some arr \<and> i \<in> set arr)"
  proof (intro ballI allI impI)
    fix i s assume i: "i \<in> set (x # xs)" and s: "root_of (parent u) i s"
    show "\<exists>arr. map_of m' s = Some arr \<and> i \<in> set arr"
    proof (cases "i = x")
      case True
      with s xr have "s = r" using root_of_unique by blast
      have "\<exists>arr1. map_of ?m1 r = Some arr1 \<and> x \<in> set arr1" by (simp add: map_of_map_push)
      with mono' True \<open>s = r\<close> show ?thesis by blast
    next
      case False
      with i have "i \<in> set xs" by simp
      with each' keep s show ?thesis by blast
    qed
  qed
  from res0 inv' keep keep' d' mono each roots' show ?case by blast
qed

lemma uf_groups_spec:
  assumes "uf_inv n u"
  shows "\<exists>groups u'. uf_groups u = Some (groups, u') \<and> uf_inv n u' \<and>
     (\<forall>y s. root_of (parent u) y s \<longrightarrow> root_of (parent u') y s) \<and> distinct (map fst groups) \<and>
     (\<forall>i<n. \<forall>r. root_of (parent u) i r \<longrightarrow> (\<exists>arr. map_of groups r = Some arr \<and> i \<in> set arr)) \<and>
     (\<forall>k arr i. map_of groups k = Some arr \<and> i \<in> set arr \<longrightarrow> root_of (parent u') i k)"
proof -
  from assms have len: "length (parent u) = n" by (simp add: uf_inv_def)
  have "set [0..<n] \<subseteq> {0..<n}" "distinct (map fst ([] :: (nat \<times> nat list) list))"
    "\<forall>k arr i. map_of ([] :: (nat \<times> nat list) list) k = Some arr \<and> i \<in> set arr \<longrightarrow> root_of (parent u) i k"
    by simp_all
  from groups_loop_spec [OF assms this] show ?thesis
    unfolding uf_groups_def len by auto
qed



text \<open>The first naming pass.\<close>

lemma pass1_spec:
  "map_of (fold (\<lambda>(rt, p, g) m. if g then map_set rt ''gnd'' m else m) info m0) k =
     (if \<exists>p. (k, p, True) \<in> set info then Some ''gnd'' else map_of m0 k)"
proof (induction info arbitrary: m0)
  case Nil
  show ?case by simp
next
  case (Cons e info)
  obtain rt p g where e: "e = (rt, p, g)" by (cases e)
  let ?F = "\<lambda>(rt, p, g) m. if g then map_set rt ''gnd'' m else m"
  let ?m1 = "if g then map_set rt ''gnd'' m0 else m0"
  have "fold ?F (e # info) m0 = fold ?F info ?m1" by (simp add: e)
  then have "map_of (fold ?F (e # info) m0) k =
      (if \<exists>p. (k, p, True) \<in> set info then Some ''gnd'' else map_of ?m1 k)"
    by (simp only: Cons.IH)
  also have "\<dots> = (if \<exists>p. (k, p, True) \<in> set (e # info) then Some ''gnd'' else map_of m0 k)"
  proof (cases "\<exists>p. (k, p, True) \<in> set info")
    case True
    then have "\<exists>p. (k, p, True) \<in> set (e # info)" by auto
    with True show ?thesis by (simp only: if_True)
  next
    case False
    show ?thesis
    proof (cases "g \<and> k = rt")
      case True
      then have "\<exists>p. (k, p, True) \<in> set (e # info)" by (auto simp: e)
      moreover from True have "map_of ?m1 k = Some ''gnd''" by (simp add: map_of_map_set)
      ultimately show ?thesis using False by (simp only: if_True if_False)
    next
      case ng: False
      with False have "\<not> (\<exists>p. (k, p, True) \<in> set (e # info))" by (auto simp: e)
      moreover from ng have "map_of ?m1 k = map_of m0 k" by (auto simp: map_of_map_set)
      ultimately show ?thesis using False by (simp only: if_False)
    qed
  qed
  finally show ?case .
qed

lemma pass1_distinct:
  "distinct (map fst m0) \<Longrightarrow>
   distinct (map fst (fold (\<lambda>(rt, p, g) m. if g then map_set rt ''gnd'' m else m) info m0))"
proof (induction info arbitrary: m0)
  case Nil
  then show ?case by simp
next
  case (Cons e info)
  obtain rt p g where e: "e = (rt, p, g)" by (cases e)
  let ?F = "\<lambda>(rt, p, g) m. if g then map_set rt ''gnd'' m else m"
  let ?m1 = "if g then map_set rt ''gnd'' m0 else m0"
  have f: "fold ?F (e # info) m0 = fold ?F info ?m1" by (simp add: e)
  from Cons.prems have "distinct (map fst ?m1)" by (simp add: distinct_map_set)
  then show ?case unfolding f by (rule Cons.IH)
qed

text \<open>The second naming pass keeps what is named and names the rest \<open>n...\<close>.\<close>

lemma pass2_spec:
  fixes info :: "(nat \<times> point \<times> bool) list"
  defines "step \<equiv> (\<lambda>(rt, p, g) (m, nodeCounter).
                      if map_of m rt \<noteq> None then (m, nodeCounter)
                      else (map_set rt (CHR ''n'' # string_of_nat nodeCounter) m, Suc nodeCounter))"
  shows "(\<forall>k v. map_of m0 k = Some v \<longrightarrow> map_of (fst (fold step info (m0, c0))) k = Some v) \<and>
         (\<forall>k\<in>fst ` set info. map_of (fst (fold step info (m0, c0))) k \<noteq> None) \<and>
         (\<forall>k v. map_of (fst (fold step info (m0, c0))) k = Some v \<longrightarrow>
            map_of m0 k = Some v \<or>
            (map_of m0 k = None \<and> k \<in> fst ` set info \<and> (\<exists>c. v = CHR ''n'' # string_of_nat c))) \<and>
         (distinct (map fst m0) \<longrightarrow> distinct (map fst (fst (fold step info (m0, c0)))))"
proof (induction info arbitrary: m0 c0)
  case Nil
  show ?case by simp
next
  case (Cons e info)
  obtain rt p g where e: "e = (rt, p, g)" by (cases e)
  show ?case
  proof (cases "map_of m0 rt")
    case (Some v0)
    then have st: "step e (m0, c0) = (m0, c0)" by (simp add: step_def e)
    have fs: "fold step (e # info) (m0, c0) = fold step info (m0, c0)" by (simp add: st)
    note IH = Cons.IH [of m0 c0]
    show ?thesis
      unfolding fs
    proof (intro conjI ballI)
      fix k assume "k \<in> fst ` set (e # info)"
      then have "k = rt \<or> k \<in> fst ` set info" by (auto simp: e)
      moreover from IH Some have "map_of (fst (fold step info (m0, c0))) rt = Some v0" by blast
      ultimately show "map_of (fst (fold step info (m0, c0))) k \<noteq> None"
        using IH by auto
    next
      have "fst ` set info \<subseteq> fst ` set (e # info)" by auto
      with IH show "\<forall>k v. map_of (fst (fold step info (m0, c0))) k = Some v \<longrightarrow>
            map_of m0 k = Some v \<or>
            (map_of m0 k = None \<and> k \<in> fst ` set (e # info) \<and> (\<exists>c. v = CHR ''n'' # string_of_nat c))"
        by blast
    qed (use IH in blast)+
  next
    case None
    let ?m1 = "map_set rt (CHR ''n'' # string_of_nat c0) m0"
    have st: "step e (m0, c0) = (?m1, Suc c0)" using None by (simp add: step_def e)
    note IH = Cons.IH [of ?m1 "Suc c0"]
    have m1: "map_of ?m1 = (map_of m0)(rt \<mapsto> CHR ''n'' # string_of_nat c0)" by (rule map_of_map_set)
    show ?thesis
    proof (intro conjI allI impI ballI)
      fix k v assume "map_of m0 k = Some v"
      with None have "map_of ?m1 k = Some v" by (auto simp: m1)
      with IH show "map_of (fst (fold step (e # info) (m0, c0))) k = Some v" by (simp add: st)
    next
      fix k assume "k \<in> fst ` set (e # info)"
      then have "k = rt \<or> k \<in> fst ` set info" by (auto simp: e)
      moreover have "map_of ?m1 rt = Some (CHR ''n'' # string_of_nat c0)" by (simp add: m1)
      ultimately show "map_of (fst (fold step (e # info) (m0, c0))) k \<noteq> None"
        using IH by (auto simp: st)
    next
      fix k v assume "map_of (fst (fold step (e # info) (m0, c0))) k = Some v"
      then have "map_of (fst (fold step info (?m1, Suc c0))) k = Some v" by (simp add: st)
      with IH have "map_of ?m1 k = Some v \<or>
          (map_of ?m1 k = None \<and> k \<in> fst ` set info \<and> (\<exists>c. v = CHR ''n'' # string_of_nat c))"
        by blast
      with None show "map_of m0 k = Some v \<or>
          (map_of m0 k = None \<and> k \<in> fst ` set (e # info) \<and> (\<exists>c. v = CHR ''n'' # string_of_nat c))"
        by (cases "k = rt") (auto simp: m1 e)
    next
      assume "distinct (map fst m0)"
      then have "distinct (map fst ?m1)" by (rule distinct_map_set)
      with IH show "distinct (map fst (fst (fold step (e # info) (m0, c0))))" by (simp add: st)
    qed
  qed
qed

lemma assign_ids_ground:
  assumes "(rt, p, True) \<in> set info"
  shows "map_of (assign_ids info) rt = Some ''gnd''"
proof -
  let ?m1 = "fold (\<lambda>(rt, p, g) m. if g then map_set rt ''gnd'' m else m) info []"
  have "map_of ?m1 rt = Some ''gnd''"
    using pass1_spec [of info "[]" rt] assms by auto
  with pass2_spec [where ?m0.0 = ?m1 and ?c0.0 = 1 and info = info] show ?thesis
    unfolding assign_ids_def Let_def by blast
qed

lemma assign_ids_distinct: "distinct (map fst (assign_ids info))"
proof -
  let ?m1 = "fold (\<lambda>(rt, p, g) m. if g then map_set rt ''gnd'' m else m) info []"
  have "distinct (map fst ?m1)"
    using pass1_distinct [of "[]" info] by simp
  with pass2_spec [where ?m0.0 = ?m1 and ?c0.0 = 1 and info = info] show ?thesis
    unfolding assign_ids_def Let_def by blast
qed

lemma assign_ids_value:
  assumes "map_of (assign_ids info) k = Some v"
  shows "(v = ''gnd'' \<and> (\<exists>p. (k, p, True) \<in> set info)) \<or>
         (v \<noteq> ''gnd'' \<and> k \<in> fst ` set info \<and> \<not> (\<exists>p. (k, p, True) \<in> set info))"
proof -
  let ?m1 = "fold (\<lambda>(rt, p, g) m. if g then map_set rt ''gnd'' m else m) info []"
  from assms pass2_spec [where ?m0.0 = ?m1 and ?c0.0 = 1 and info = info]
  have "map_of ?m1 k = Some v \<or>
      (map_of ?m1 k = None \<and> k \<in> fst ` set info \<and> (\<exists>c. v = CHR ''n'' # string_of_nat c))"
    unfolding assign_ids_def Let_def by blast
  then show ?thesis
  proof
    assume "map_of ?m1 k = Some v"
    then show ?thesis using pass1_spec [of info "[]" k] by (auto split: if_splits)
  next
    assume a: "map_of ?m1 k = None \<and> k \<in> fst ` set info \<and> (\<exists>c. v = CHR ''n'' # string_of_nat c)"
    then have "\<not> (\<exists>p. (k, p, True) \<in> set info)"
      using pass1_spec [of info "[]" k] by (auto split: if_splits)
    moreover from a have "v \<noteq> ''gnd''" by auto
    ultimately show ?thesis using a by blast
  qed
qed

lemma assign_ids_named:
  assumes "k \<in> fst ` set info"
  shows "map_of (assign_ids info) k \<noteq> None"
  using assms pass2_spec [where ?m0.0 = "fold (\<lambda>(rt, p, g) m. if g then map_set rt ''gnd'' m else m) info []"
      and ?c0.0 = 1 and info = info]
  unfolding assign_ids_def Let_def by blast



lemma keys_set_map_set: "fst ` set (map_set k v m) = insert k (fst ` set m)"
  by (induction m) auto

text \<open>The last loop: the names with a display position, and the nodes that are not ground.\<close>

lemma collect_nodes_fold:
  fixes info :: "(nat \<times> point \<times> bool) list"
  defines "step \<equiv> (\<lambda>(rt, nid) (nodePoints, nodes).
             let p = fst (the (map_of info rt)) in
             (map_set nid p nodePoints,
              if nid \<noteq> ''gnd'' then nodes @ [\<lparr>node_id = nid, node_p = p\<rparr>] else nodes))"
  shows "map node_id (snd (fold step r2n (np0, nds0))) = map node_id nds0 @ filter (\<lambda>s. s \<noteq> ''gnd'') (map snd r2n) \<and>
         fst ` set (fst (fold step r2n (np0, nds0))) = fst ` set np0 \<union> snd ` set r2n \<and>
         (distinct (map fst np0) \<longrightarrow> distinct (map fst (fst (fold step r2n (np0, nds0)))))"
proof (induction r2n arbitrary: np0 nds0)
  case Nil
  show ?case by simp
next
  case (Cons e r2n)
  obtain rt nid where e: "e = (rt, nid)" by (cases e)
  let ?p = "fst (the (map_of info rt))"
  have st: "step e (np0, nds0) =
      (map_set nid ?p np0, if nid \<noteq> ''gnd'' then nds0 @ [\<lparr>node_id = nid, node_p = ?p\<rparr>] else nds0)"
    by (simp add: step_def e Let_def)
  have keys: "fst ` set (map_set nid ?p np0) = insert nid (fst ` set np0)"
    by (rule keys_set_map_set)
  show ?case
    unfolding fold_simps st using Cons.IH [of "map_set nid ?p np0"] keys
    by (auto simp: e distinct_map_set)
qed

lemma collect_nodes_spec:
  "map node_id (snd (collect_nodes info r2n)) = filter (\<lambda>s. s \<noteq> ''gnd'') (map snd r2n) \<and>
   fst ` set (fst (collect_nodes info r2n)) = snd ` set r2n \<and>
   distinct (map fst (fst (collect_nodes info r2n)))"
  unfolding collect_nodes_def using collect_nodes_fold [of info r2n "[]" "[]"] by simp


section \<open>buildNet on every document\<close>


lemma ground_point_exists:
  assumes "list_ex is_gnd (doc_elements doc)"
  shows "\<exists>k<length (collect_points doc). pr_term (collect_points doc ! k) = Some TermGnd"
proof -
  from assms obtain el where el: "el \<in> set (doc_elements doc)" "is_gnd el"
    unfolding list_ex_iff by blast
  from el(2) obtain g where "el = Ground g" by (cases el) auto
  with el have "\<lparr>pr_p = gd_p g, pr_kind = Terminal, pr_ownerId = gd_id g, pr_term = Some TermGnd\<rparr>
      \<in> set (collect_points doc)"
    unfolding collect_points_def by force
  then obtain k where "k < length (collect_points doc)"
    "collect_points doc ! k = \<lparr>pr_p = gd_p g, pr_kind = Terminal, pr_ownerId = gd_id g, pr_term = Some TermGnd\<rparr>"
    by (auto simp: in_set_conv_nth)
  then show ?thesis by auto
qed

text \<open>The loop over the terminals returns, and a ground terminal is only ever recorded as \<open>gnd\<close>.\<close>

lemma note_terminal_spec:
  assumes inv: "uf_inv n u" and i: "i < n"
    and keep: "\<forall>y s. root_of (parent u1) y s \<longrightarrow> root_of (parent u) y s"
    and inv1: "uf_inv n u1"
    and gnd: "\<forall>i<n. pr_term (pts ! i) = Some TermGnd \<longrightarrow>
                (\<forall>r. root_of (parent u1) i r \<longrightarrow> map_of r2n r = Some ''gnd'')"
    and ok: "\<forall>k t. map_of m k = Some t \<longrightarrow> tn_gnd t = None \<or> tn_gnd t = Some ''gnd''"
  shows "\<exists>m' u'. note_terminal pts r2n i (m, u) = Some (m', u') \<and> uf_inv n u' \<and>
           (\<forall>y s. root_of (parent u1) y s \<longrightarrow> root_of (parent u') y s) \<and>
           (\<forall>k t. map_of m' k = Some t \<longrightarrow> tn_gnd t = None \<or> tn_gnd t = Some ''gnd'')"
proof (cases "pr_kind (pts ! i) \<noteq> Terminal \<or> pr_ownerId (pts ! i) = []")
  case True
  then have "note_terminal pts r2n i (m, u) = Some (m, u)"
    by (auto simp: note_terminal_def Let_def)
  with inv keep ok show ?thesis by simp
next
  case False
  from uf_find_spec [OF inv i]
  obtain rt u' where f: "uf_find u i = Some (rt, u')" and ir: "root_of (parent u) i rt"
    and inv': "uf_inv n u'" and keep': "\<forall>y s. root_of (parent u) y s \<longrightarrow> root_of (parent u') y s"
    by blast
  from root_of_exists [OF inv1 i] obtain r0 where r0: "root_of (parent u1) i r0" by blast
  with keep have "root_of (parent u) i r0" by blast
  with ir have rt: "rt = r0" by (rule root_of_unique)
  define prev where "prev = (case map_of m (pr_ownerId (pts ! i)) of
                       Some t \<Rightarrow> t | None \<Rightarrow> \<lparr>tn_a = None, tn_b = None, tn_gnd = None\<rparr>)"
  define nid where "nid = map_of r2n rt"
  define prev1 where "prev1 = (if pr_term (pts ! i) = Some TermA then prev\<lparr>tn_a := nid\<rparr> else prev)"
  define prev2 where "prev2 = (if pr_term (pts ! i) = Some TermB then prev1\<lparr>tn_b := nid\<rparr> else prev1)"
  define prev3 where "prev3 = (if pr_term (pts ! i) = Some TermGnd then prev2\<lparr>tn_gnd := nid\<rparr> else prev2)"
  have res: "note_terminal pts r2n i (m, u) = Some (map_set (pr_ownerId (pts ! i)) prev3 m, u')"
    using False f by (simp add: note_terminal_def Let_def prev_def nid_def prev1_def prev2_def prev3_def)
  have p0: "tn_gnd prev = None \<or> tn_gnd prev = Some ''gnd''"
    using ok by (cases "map_of m (pr_ownerId (pts ! i))") (auto simp: prev_def)
  then have p2: "tn_gnd prev2 = None \<or> tn_gnd prev2 = Some ''gnd''"
    by (auto simp: prev1_def prev2_def)
  have p3: "tn_gnd prev3 = None \<or> tn_gnd prev3 = Some ''gnd''"
  proof (cases "pr_term (pts ! i) = Some TermGnd")
    case True
    with gnd i r0 have "nid = Some ''gnd''" by (simp add: nid_def rt)
    with True show ?thesis by (simp add: prev3_def)
  next
    case False
    with p2 show ?thesis by (simp add: prev3_def)
  qed
  have "\<forall>k t. map_of (map_set (pr_ownerId (pts ! i)) prev3 m) k = Some t \<longrightarrow>
          tn_gnd t = None \<or> tn_gnd t = Some ''gnd''"
    using ok p3 by (auto simp: map_of_map_set)
  with res inv' keep keep' show ?thesis by blast
qed

lemma element_nodes_spec:
  assumes inv1: "uf_inv (length pts) u1"
    and gnd: "\<forall>i<length pts. pr_term (pts ! i) = Some TermGnd \<longrightarrow>
                (\<forall>r. root_of (parent u1) i r \<longrightarrow> map_of r2n r = Some ''gnd'')"
  shows "\<exists>m u2. element_nodes pts r2n u1 = Some (m, u2) \<and>
           (\<forall>k t. map_of m k = Some t \<longrightarrow> tn_gnd t = None \<or> tn_gnd t = Some ''gnd'')"
proof -
  let ?n = "length pts"
  let ?Inv = "\<lambda>st. uf_inv ?n (snd st) \<and> (\<forall>y s. root_of (parent u1) y s \<longrightarrow> root_of (parent (snd st)) y s) \<and>
           (\<forall>k t. map_of (fst st) k = Some t \<longrightarrow> tn_gnd t = None \<or> tn_gnd t = Some ''gnd'')"
  have "\<exists>s'. ofold (note_terminal pts r2n) [0..<?n] ([], u1) = Some s' \<and> ?Inv s' \<and> True \<and>
          (\<forall>x\<in>set [0..<?n]. True)"
  proof (rule ofold_each [where Inv = ?Inv and G = "\<lambda>_ _. True" and Q = "\<lambda>_ _. True"])
    show "?Inv ([], u1)" using inv1 by simp
  next
    fix x and s :: "(string \<times> term_nodes) list \<times> uf"
    assume x: "x \<in> set [0..<?n]" and s: "?Inv s"
    obtain m u where st: "s = (m, u)" by (cases s)
    from x have xn: "x < ?n" by simp
    from s st have a: "uf_inv ?n u" "\<forall>y s. root_of (parent u1) y s \<longrightarrow> root_of (parent u) y s"
      "\<forall>k t. map_of m k = Some t \<longrightarrow> tn_gnd t = None \<or> tn_gnd t = Some ''gnd''" by simp_all
    from note_terminal_spec [OF a(1) xn a(2) inv1 gnd a(3)]
    show "\<exists>s'. note_terminal pts r2n x s = Some s' \<and> ?Inv s' \<and> True \<and> True"
      unfolding st by auto
  qed simp_all
  then show ?thesis unfolding element_nodes_def by auto
qed

lemma filter_key_once:
  "distinct (map fst m) \<Longrightarrow> k \<in> fst ` set m \<Longrightarrow> length (filter (\<lambda>e. fst e = k) m) = 1"
proof (induction m)
  case Nil
  then show ?case by simp
next
  case (Cons e m)
  show ?case
  proof (cases "fst e = k")
    case True
    with Cons.prems have "k \<notin> fst ` set m" by auto
    then have "filter (\<lambda>e. fst e = k) m = []" by (auto simp: filter_empty_conv)
    with True show ?thesis by simp
  next
    case False
    with Cons show ?thesis by auto
  qed
qed



text \<open>What \<open>buildNet\<close> computes on every document.\<close>

lemma buildNet_run:
  "\<exists>u groups u1 e2n u2 nodePts nds.
     cluster doc = Some u \<and> uf_groups u = Some (groups, u1) \<and>
     element_nodes (collect_points doc)
        (assign_ids (map (\<lambda>(rt, idxs). (rt, group_info (collect_points doc) idxs)) groups)) u1 = Some (e2n, u2) \<and>
     collect_nodes (map (\<lambda>(rt, idxs). (rt, group_info (collect_points doc) idxs)) groups)
        (assign_ids (map (\<lambda>(rt, idxs). (rt, group_info (collect_points doc) idxs)) groups)) = (nodePts, nds) \<and>
     (nds = [] \<longleftrightarrow> no_free_node doc) \<and>
     ''gnd'' \<notin> set (map node_id nds) \<and>
     distinct (map fst nodePts) \<and>
     (list_ex is_gnd (doc_elements doc) \<longrightarrow> ''gnd'' \<in> fst ` set nodePts) \<and>
     (\<forall>k t. map_of e2n k = Some t \<longrightarrow> tn_gnd t = None \<or> tn_gnd t = Some ''gnd'')"
proof -
  let ?pts = "collect_points doc"
  let ?n = "length ?pts"
  from cluster_spec [of doc] obtain u where u: "cluster doc = Some u" "uf_inv ?n u" by blast
  from uf_groups_spec [OF u(2)] obtain groups u1 where
    g: "uf_groups u = Some (groups, u1)" and inv1: "uf_inv ?n u1"
    and keep: "\<forall>y s. root_of (parent u) y s \<longrightarrow> root_of (parent u1) y s"
    and dg: "distinct (map fst groups)"
    and each: "\<forall>i<?n. \<forall>r. root_of (parent u) i r \<longrightarrow> (\<exists>arr. map_of groups r = Some arr \<and> i \<in> set arr)"
    by blast
  define info where "info = map (\<lambda>(rt, idxs). (rt, group_info ?pts idxs)) groups"
  define r2n where "r2n = assign_ids info"
  have keys: "map fst info = map fst groups"
    by (auto simp: info_def)
  have dinfo: "distinct (map fst info)" using dg by (simp add: keys)
  have info_set: "(rt, p, b) \<in> set info \<longleftrightarrow>
      (\<exists>idxs. (rt, idxs) \<in> set groups \<and> group_info ?pts idxs = (p, b))" for rt p b
    by (force simp: info_def)
  have gsnd: "snd (group_info ?pts idxs) = list_ex (\<lambda>idx. pr_term (?pts ! idx) = Some TermGnd) idxs" for idxs
    by (simp add: group_info_def Let_def)
  have ground_named: "map_of r2n r = Some ''gnd''"
    if i: "i < ?n" and t: "pr_term (?pts ! i) = Some TermGnd" and r: "root_of (parent u) i r" for i r
  proof -
    from each i r obtain arr where arr: "map_of groups r = Some arr" "i \<in> set arr" by blast
    then have "(r, arr) \<in> set groups" by (simp add: map_of_SomeD)
    moreover from arr(2) t have "snd (group_info ?pts arr)" by (auto simp: gsnd list_ex_iff)
    ultimately have "(r, fst (group_info ?pts arr), True) \<in> set info"
      unfolding info_set by (intro exI [of _ arr]) (simp add: prod_eq_iff)
    then show ?thesis unfolding r2n_def by (rule assign_ids_ground)
  qed
  have gnd1: "\<forall>i<?n. pr_term (?pts ! i) = Some TermGnd \<longrightarrow>
                (\<forall>r. root_of (parent u1) i r \<longrightarrow> map_of r2n r = Some ''gnd'')"
  proof (intro allI impI)
    fix i r assume i: "i < ?n" and t: "pr_term (?pts ! i) = Some TermGnd" and r: "root_of (parent u1) i r"
    from root_of_exists [OF u(2) i] obtain r0 where r0: "root_of (parent u) i r0" by blast
    with keep have "root_of (parent u1) i r0" by blast
    with r have "r = r0" by (rule root_of_unique)
    with ground_named [OF i t r0] show "map_of r2n r = Some ''gnd''" by simp
  qed
  from element_nodes_spec [OF inv1 gnd1] obtain e2n u2 where
    en: "element_nodes ?pts r2n u1 = Some (e2n, u2)"
    and tg: "\<forall>k t. map_of e2n k = Some t \<longrightarrow> tn_gnd t = None \<or> tn_gnd t = Some ''gnd''"
    by blast
  obtain nodePts nds where cn: "collect_nodes info r2n = (nodePts, nds)"
    by (cases "collect_nodes info r2n")
  from collect_nodes_spec [of info r2n] cn
  have ids: "map node_id nds = filter (\<lambda>s. s \<noteq> ''gnd'') (map snd r2n)"
    and nk: "fst ` set nodePts = snd ` set r2n" and nd: "distinct (map fst nodePts)"
    by simp_all
  have dr: "distinct (map fst r2n)" unfolding r2n_def by (rule assign_ids_distinct)
  have nfn: "no_free_node doc \<longleftrightarrow> (\<forall>rt p b. (rt, p, b) \<in> set info \<longrightarrow> b)"
  proof -
    have "no_free_node doc \<longleftrightarrow>
        (\<forall>e\<in>set groups. snd (group_info ?pts (snd e)))"
      by (simp add: no_free_node_def u(1) g gsnd list_all_iff case_prod_beta)
    also have "\<dots> \<longleftrightarrow> (\<forall>rt p b. (rt, p, b) \<in> set info \<longrightarrow> b)"
    proof
      assume a: "\<forall>e\<in>set groups. snd (group_info ?pts (snd e))"
      show "\<forall>rt p b. (rt, p, b) \<in> set info \<longrightarrow> b"
      proof (intro allI impI)
        fix rt p b assume "(rt, p, b) \<in> set info"
        then obtain idxs where i: "(rt, idxs) \<in> set groups" "group_info ?pts idxs = (p, b)"
          unfolding info_set by blast
        from a i(1) have "snd (group_info ?pts (snd (rt, idxs)))" by (rule bspec)
        with i(2) show b by simp
      qed
    next
      assume a: "\<forall>rt p b. (rt, p, b) \<in> set info \<longrightarrow> b"
      show "\<forall>e\<in>set groups. snd (group_info ?pts (snd e))"
      proof
        fix e assume "e \<in> set groups"
        then have "(fst e, snd e) \<in> set groups" by simp
        then have "(fst e, fst (group_info ?pts (snd e)), snd (group_info ?pts (snd e))) \<in> set info"
          unfolding info_set by (intro exI [of _ "snd e"]) simp
        with a show "snd (group_info ?pts (snd e))" by blast
      qed
    qed
    finally show ?thesis .
  qed
  have "nds = [] \<longleftrightarrow> map node_id nds = []" by simp
  also have "\<dots> \<longleftrightarrow> (\<forall>v\<in>snd ` set r2n. v = ''gnd'')"
    unfolding ids by (auto simp: filter_empty_conv)
  also have "\<dots> \<longleftrightarrow> (\<forall>rt p b. (rt, p, b) \<in> set info \<longrightarrow> b)"
  proof
    assume all: "\<forall>v\<in>snd ` set r2n. v = ''gnd''"
    show "\<forall>rt p b. (rt, p, b) \<in> set info \<longrightarrow> b"
    proof (intro allI impI)
      fix rt p b assume m: "(rt, p, b) \<in> set info"
      then have "rt \<in> fst ` set info" by force
      from assign_ids_named [OF this] obtain v where v: "map_of r2n rt = Some v"
        unfolding r2n_def by auto
      then have "(rt, v) \<in> set r2n" by (rule map_of_SomeD)
      then have "v \<in> snd ` set r2n" by force
      with all have "v = ''gnd''" by blast
      with assign_ids_value [OF v [unfolded r2n_def]] obtain p' where p': "(rt, p', True) \<in> set info" by blast
      have "(p, b) = (p', True)"
        using dinfo m p' by (rule eq_key_imp_eq_value)
      then show b by simp
    qed
  next
    assume all: "\<forall>rt p b. (rt, p, b) \<in> set info \<longrightarrow> b"
    show "\<forall>v\<in>snd ` set r2n. v = ''gnd''"
    proof
      fix v assume "v \<in> snd ` set r2n"
      then obtain k where "(k, v) \<in> set r2n" by auto
      with dr have kv: "map_of r2n k = Some v" by simp
      show "v = ''gnd''"
      proof (rule ccontr)
        assume "v \<noteq> ''gnd''"
        with assign_ids_value [OF kv [unfolded r2n_def]]
        have "k \<in> fst ` set info" "\<not> (\<exists>p. (k, p, True) \<in> set info)" by auto
        then obtain e where e: "e \<in> set info" "fst e = k" "\<not> (\<exists>p. (k, p, True) \<in> set info)" by blast
        then have "(k, fst (snd e), snd (snd e)) \<in> set info" by (metis prod.collapse)
        with e(3) have "(k, fst (snd e), snd (snd e)) \<in> set info" "\<not> snd (snd e)" by (cases "snd (snd e)"; simp)+
        with all show False by blast
      qed
    qed
  qed
  finally have empty: "nds = [] \<longleftrightarrow> no_free_node doc" unfolding nfn .
  have nognd: "''gnd'' \<notin> set (map node_id nds)" unfolding ids by simp
  have has: "''gnd'' \<in> fst ` set nodePts" if "list_ex is_gnd (doc_elements doc)"
  proof -
    from ground_point_exists [OF that] obtain k where k: "k < ?n" "pr_term (?pts ! k) = Some TermGnd"
      by blast
    from root_of_exists [OF u(2) k(1)] obtain r where "root_of (parent u) k r" by blast
    from ground_named [OF k this] have "(r, ''gnd'') \<in> set r2n" by (rule map_of_SomeD)
    then have "''gnd'' \<in> snd ` set r2n" by force
    then show ?thesis by (simp add: nk)
  qed
  from has have has': "list_ex is_gnd (doc_elements doc) \<longrightarrow> ''gnd'' \<in> fst ` set nodePts" by blast
  have e1: "element_nodes ?pts
        (assign_ids (map (\<lambda>(rt, idxs). (rt, group_info ?pts idxs)) groups)) u1 = Some (e2n, u2)"
    using en unfolding info_def r2n_def .
  have c1: "collect_nodes (map (\<lambda>(rt, idxs). (rt, group_info ?pts idxs)) groups)
        (assign_ids (map (\<lambda>(rt, idxs). (rt, group_info ?pts idxs)) groups)) = (nodePts, nds)"
    using cn unfolding info_def r2n_def .
  show ?thesis
    apply (rule exI [of _ u], rule exI [of _ groups], rule exI [of _ u1], rule exI [of _ e2n])
    apply (rule exI [of _ u2], rule exI [of _ nodePts], rule exI [of _ nds])
    apply (intro conjI)
            apply (rule u(1))
           apply (rule g)
          apply (rule e1)
         apply (rule c1)
        apply (rule empty)
       apply (rule nognd)
      apply (rule nd)
     apply (rule has')
    apply (rule tg)
    done
qed


section \<open>Failure modes of buildNet and the ground node\<close>


lemma gnd_element_node:
  assumes tg: "\<forall>k t. map_of e2n k = Some t \<longrightarrow> tn_gnd t = None \<or> tn_gnd t = Some ''gnd''"
    and ty: "el_type (net_element_of e2n x) = GND"
  shows "el_a (net_element_of e2n x) = Some ''gnd''"
proof (cases x)
  case (Ground g)
  define tn where "tn = (case map_of e2n (gd_id g) of
                  Some t \<Rightarrow> t | None \<Rightarrow> \<lparr>tn_a = None, tn_b = None, tn_gnd = None\<rparr>)"
  have "tn_gnd tn = None \<or> tn_gnd tn = Some ''gnd''"
    using tg by (cases "map_of e2n (gd_id g)") (auto simp: tn_def)
  then have "or_gnd (tn_gnd tn) = ''gnd''" by (auto simp: or_gnd_def)
  then show ?thesis by (simp add: Ground tn_def Let_def)
next
  case (Element2T e)
  with ty show ?thesis by (cases "e2_type e") (simp_all add: Let_def)
qed

text \<open>
  C4. \<open>buildNet\<close> fails exactly when the document has no element, or no element of type
  GND, or when every group of the clustering holds a ground terminal, so that no node other
  than ground is left; the search of the union-find always returns. On every other document
  it succeeds, and then, however many GND elements the document has, the net has the ground
  flag, the table of node positions has exactly one entry named \<open>gnd\<close>, no listed node is
  named \<open>gnd\<close>, and every GND element is attached to the node \<open>gnd\<close>.
\<close>

theorem buildNet_fails_exactly_and_names_one_gnd:
  "(buildNet doc = Inl NoElements \<longleftrightarrow> doc_elements doc = []) \<and>
   (buildNet doc = Inl MissingGND \<longleftrightarrow> doc_elements doc \<noteq> [] \<and> \<not> list_ex is_gnd (doc_elements doc)) \<and>
   (buildNet doc = Inl OnlyGround \<longleftrightarrow>
      doc_elements doc \<noteq> [] \<and> list_ex is_gnd (doc_elements doc) \<and> no_free_node doc) \<and>
   buildNet doc \<noteq> Inl FindDoesNotReturn \<and>
   ((\<exists>r. buildNet doc = Inr r) \<longleftrightarrow>
      doc_elements doc \<noteq> [] \<and> list_ex is_gnd (doc_elements doc) \<and> \<not> no_free_node doc) \<and>
   (\<forall>r. buildNet doc = Inr r \<longrightarrow>
      hasGround (ok_net r) \<and> nodes (ok_net r) \<noteq> [] \<and>
      length (filter (\<lambda>e. fst e = ''gnd'') (ok_nodePoints r)) = 1 \<and>
      ''gnd'' \<notin> set (map node_id (nodes (ok_net r))) \<and>
      (\<forall>e\<in>set (elements (ok_net r)). el_type e = GND \<longrightarrow> el_a e = Some ''gnd''))"
proof -
  let ?pts = "collect_points doc"
  from buildNet_run [of doc] obtain u groups u1 e2n u2 nodePts nds where
    u: "cluster doc = Some u" and g: "uf_groups u = Some (groups, u1)"
    and en: "element_nodes ?pts
        (assign_ids (map (\<lambda>(rt, idxs). (rt, group_info ?pts idxs)) groups)) u1 = Some (e2n, u2)"
    and cn: "collect_nodes (map (\<lambda>(rt, idxs). (rt, group_info ?pts idxs)) groups)
        (assign_ids (map (\<lambda>(rt, idxs). (rt, group_info ?pts idxs)) groups)) = (nodePts, nds)"
    and empty: "nds = [] \<longleftrightarrow> no_free_node doc"
    and nognd: "''gnd'' \<notin> set (map node_id nds)"
    and nd: "distinct (map fst nodePts)"
    and has: "list_ex is_gnd (doc_elements doc) \<longrightarrow> ''gnd'' \<in> fst ` set nodePts"
    and tg: "\<forall>k t. map_of e2n k = Some t \<longrightarrow> tn_gnd t = None \<or> tn_gnd t = Some ''gnd''"
    by blast
  define ok where "ok = \<lparr>ok_net = \<lparr>nodes = nds, hasGround = True,
                          elements = map (net_element_of e2n) (doc_elements doc)\<rparr>,
                     ok_nodePoints = nodePts\<rparr>"
  have run: "buildNet doc =
      (if doc_elements doc = [] then Inl NoElements
       else if \<not> list_ex is_gnd (doc_elements doc) then Inl MissingGND
       else if nds = [] then Inl OnlyGround else Inr ok)"
    by (simp add: buildNet_def Let_def u g en cn ok_def)
  have once: "length (filter (\<lambda>e. fst e = ''gnd'') nodePts) = 1" if "list_ex is_gnd (doc_elements doc)"
    using filter_key_once [OF nd] has that by blast
  have attached: "\<forall>e\<in>set (elements (ok_net ok)). el_type e = GND \<longrightarrow> el_a e = Some ''gnd''"
    using gnd_element_node [OF tg] by (auto simp: ok_def)
  have c1: "buildNet doc = Inl NoElements \<longleftrightarrow> doc_elements doc = []"
    unfolding run by simp
  have c2: "buildNet doc = Inl MissingGND \<longleftrightarrow> doc_elements doc \<noteq> [] \<and> \<not> list_ex is_gnd (doc_elements doc)"
    unfolding run by simp
  have c3: "buildNet doc = Inl OnlyGround \<longleftrightarrow>
      doc_elements doc \<noteq> [] \<and> list_ex is_gnd (doc_elements doc) \<and> no_free_node doc"
    unfolding run using empty by simp
  have c4: "buildNet doc \<noteq> Inl FindDoesNotReturn"
    unfolding run by simp
  have c5: "(\<exists>r. buildNet doc = Inr r) \<longleftrightarrow>
      doc_elements doc \<noteq> [] \<and> list_ex is_gnd (doc_elements doc) \<and> \<not> no_free_node doc"
    unfolding run using empty by simp
  have c6: "\<forall>r. buildNet doc = Inr r \<longrightarrow>
      hasGround (ok_net r) \<and> nodes (ok_net r) \<noteq> [] \<and>
      length (filter (\<lambda>e. fst e = ''gnd'') (ok_nodePoints r)) = 1 \<and>
      ''gnd'' \<notin> set (map node_id (nodes (ok_net r))) \<and>
      (\<forall>e\<in>set (elements (ok_net r)). el_type e = GND \<longrightarrow> el_a e = Some ''gnd'')"
  proof (intro allI impI)
    fix r assume r: "buildNet doc = Inr r"
    then have *: "doc_elements doc \<noteq> []" "list_ex is_gnd (doc_elements doc)" "nds \<noteq> []" "r = ok"
      unfolding run by (auto split: if_splits)
    have "hasGround (ok_net ok)" "nodes (ok_net ok) = nds" "ok_nodePoints ok = nodePts"
      by (simp_all add: ok_def)
    with * once nognd attached show "hasGround (ok_net r) \<and> nodes (ok_net r) \<noteq> [] \<and>
      length (filter (\<lambda>e. fst e = ''gnd'') (ok_nodePoints r)) = 1 \<and>
      ''gnd'' \<notin> set (map node_id (nodes (ok_net r))) \<and>
      (\<forall>e\<in>set (elements (ok_net r)). el_type e = GND \<longrightarrow> el_a e = Some ''gnd'')"
      by simp
  qed
  from c1 c2 c3 c4 c5 c6 show ?thesis by (intro conjI)
qed

lemma two_gnd_cluster: "cluster two_gnd_doc = Some \<lparr>parent = [0, 1, 0, 3], rank = [1, 0, 0, 0]\<rparr>"
  by code_simp

lemma two_gnd_groups:
  "uf_groups \<lparr>parent = [0, 1, 0, 3], rank = [1, 0, 0, 0]\<rparr> =
     Some ([(0, [0, 2]), (1, [1]), (3, [3])], \<lparr>parent = [0, 1, 0, 3], rank = [1, 0, 0, 0]\<rparr>)"
  by code_simp

lemma two_gnd_free_node: "\<not> no_free_node two_gnd_doc"
  by (simp only: no_free_node_def two_gnd_cluster two_gnd_groups option.case prod.case) code_simp

theorem buildNet_fails_exactly_and_names_one_gnd_witness:
  "length (filter is_gnd (doc_elements two_gnd_doc)) = 2 \<and> \<not> no_free_node two_gnd_doc \<and>
   (\<exists>r. buildNet two_gnd_doc = Inr r \<and> hasGround (ok_net r) \<and>
      length (filter (\<lambda>e. fst e = ''gnd'') (ok_nodePoints r)) = 1 \<and>
      ''gnd'' \<notin> set (map node_id (nodes (ok_net r))) \<and>
      (\<forall>e\<in>set (elements (ok_net r)). el_type e = GND \<longrightarrow> el_a e = Some ''gnd''))"
proof -
  have a: "length (filter is_gnd (doc_elements two_gnd_doc)) = 2"
    "doc_elements two_gnd_doc \<noteq> []" "list_ex is_gnd (doc_elements two_gnd_doc)"
    by (simp_all add: two_gnd_doc_def)
  note t = buildNet_fails_exactly_and_names_one_gnd [of two_gnd_doc]
  from t a two_gnd_free_node obtain r where r: "buildNet two_gnd_doc = Inr r" by blast
  with t have "hasGround (ok_net r) \<and>
      length (filter (\<lambda>e. fst e = ''gnd'') (ok_nodePoints r)) = 1 \<and>
      ''gnd'' \<notin> set (map node_id (nodes (ok_net r))) \<and>
      (\<forall>e\<in>set (elements (ok_net r)). el_type e = GND \<longrightarrow> el_a e = Some ''gnd'')" by blast
  with a(1) two_gnd_free_node r show ?thesis by blast
qed



section \<open>Linked points share a group\<close>




section \<open>Union-find: nothing else is united\<close>












section \<open>The clustering unites linked points only\<close>










section \<open>The groups are the classes of linked points\<close>






















end
